theory Spec2Isabelle
  imports Main "HOL-Library.Word" "HOL-Library.Monad_Syntax"
    "HOL-Library.Char_ord" "HOL-Library.List_Lexorder" "HOL-Library.Product_Lexorder"
begin

section \<open>The sorted set of zset.go\<close>

text \<open>
  The Go program keeps its skiplist nodes on the heap and links them by pointers.
  The store of the model is the list of all nodes allocated so far; a pointer is an
  index into it and \<open>None\<close> is \<open>nil\<close>. An operation of the model returns
  \<open>None\<close> where the Go code would not return normally: an index out of range, a
  \<open>nil\<close> dereference, or a loop that never ends.

  The \<open>uint64\<close> fields (\<open>span\<close>, \<open>length\<close>, the ranks) are integers. The only
  wrap-around the code produces is in the intermediate \<open>x.level[i].span - 1\<close> of
  \<open>deleteNode\<close>, which is added to a span at once; the sum is the same in both
  arithmetics as long as the stored values are below \<open>2^64\<close>.
\<close>

subsection \<open>float64\<close>

text \<open>
  A \<open>float64\<close> is its IEEE-754 bit pattern. For two values that are not NaN the
  comparison of the numbers is the comparison of sign and magnitude, with the two
  zeros equal; every comparison with a NaN is false.
\<close>

type_synonym float64 = "64 word"

definition f_mag :: "float64 \<Rightarrow> int" where
  "f_mag w = uint w mod 2 ^ 63"

definition f_neg :: "float64 \<Rightarrow> bool" where
  "f_neg w = (2 ^ 63 \<le> uint w)"

definition isNaN :: "float64 \<Rightarrow> bool" where
  "isNaN w = (0x7FF0000000000000 < f_mag w)"

definition f_ord :: "float64 \<Rightarrow> int" where
  "f_ord w = (if f_neg w then - f_mag w else f_mag w)"

definition f_lt :: "float64 \<Rightarrow> float64 \<Rightarrow> bool" where
  "f_lt a b = (\<not> isNaN a \<and> \<not> isNaN b \<and> f_ord a < f_ord b)"

definition f_eq :: "float64 \<Rightarrow> float64 \<Rightarrow> bool" where
  "f_eq a b = (\<not> isNaN a \<and> \<not> isNaN b \<and> f_ord a = f_ord b)"

definition f_gt :: "float64 \<Rightarrow> float64 \<Rightarrow> bool" where
  "f_gt a b = f_lt b a"

subsection \<open>Nodes, the skiplist and the set\<close>

type_synonym addr = nat

record skiplistLevel =
  forward :: "addr option"
  span :: int

record skiplistNode =
  ele :: string
  score :: float64
  backward :: "addr option"
  level :: "skiplistLevel list"

record skiplist =
  store :: "skiplistNode list"
  header :: addr
  tail :: "addr option"
  length_sl :: int
  level_sl :: nat

record ZSet =
  dict :: "string \<rightharpoonup> float64"
  zsl :: skiplist

definition SKIPLIST_MAXLEVEL :: nat where
  "SKIPLIST_MAXLEVEL = 32"

subsection \<open>Reading and writing the store\<close>

definition idx :: "'a list \<Rightarrow> nat \<Rightarrow> 'a option" where
  "idx xs i = (if i < length xs then Some (xs ! i) else None)"

definition upd :: "'a list \<Rightarrow> nat \<Rightarrow> 'a \<Rightarrow> 'a list option" where
  "upd xs i v = (if i < length xs then Some (xs[i := v]) else None)"

definition node :: "skiplist \<Rightarrow> addr \<Rightarrow> skiplistNode option" where
  "node sl a = idx (store sl) a"

definition lev :: "skiplist \<Rightarrow> addr \<Rightarrow> nat \<Rightarrow> skiplistLevel option" where
  "lev sl a i = (case node sl a of None \<Rightarrow> None | Some n \<Rightarrow> idx (level n) i)"

definition set_lev :: "skiplist \<Rightarrow> addr \<Rightarrow> nat \<Rightarrow> skiplistLevel \<Rightarrow> skiplist option" where
  "set_lev sl a i l =
     (case node sl a of None \<Rightarrow> None
      | Some n \<Rightarrow>
          (case upd (level n) i l of None \<Rightarrow> None
           | Some ls \<Rightarrow> Some (sl\<lparr>store := (store sl)[a := n\<lparr>level := ls\<rparr>]\<rparr>)))"

definition set_forward :: "skiplist \<Rightarrow> addr \<Rightarrow> nat \<Rightarrow> addr option \<Rightarrow> skiplist option" where
  "set_forward sl a i v =
     (case lev sl a i of None \<Rightarrow> None | Some l \<Rightarrow> set_lev sl a i (l\<lparr>forward := v\<rparr>))"

definition set_span :: "skiplist \<Rightarrow> addr \<Rightarrow> nat \<Rightarrow> int \<Rightarrow> skiplist option" where
  "set_span sl a i v =
     (case lev sl a i of None \<Rightarrow> None | Some l \<Rightarrow> set_lev sl a i (l\<lparr>span := v\<rparr>))"

definition set_backward :: "skiplist \<Rightarrow> addr \<Rightarrow> addr option \<Rightarrow> skiplist option" where
  "set_backward sl a v =
     (case node sl a of None \<Rightarrow> None
      | Some n \<Rightarrow> Some (sl\<lparr>store := (store sl)[a := n\<lparr>backward := v\<rparr>]\<rparr>))"

subsection \<open>Loops\<close>

text \<open>
  \<open>forM is body s\<close> runs \<open>body i\<close> for the indices \<open>is\<close> in turn: the loop
  \<open>for i := a; i < b; i++\<close> is \<open>forM [a..<b]\<close> and the loop
  \<open>for i := n - 1; i >= 0; i--\<close> is \<open>forM (rev [0..<n])\<close>.
\<close>

fun forM :: "nat list \<Rightarrow> (nat \<Rightarrow> 's \<Rightarrow> 's option) \<Rightarrow> 's \<Rightarrow> 's option" where
  "forM [] body s = Some s"
| "forM (i # is) body s = (case body i s of None \<Rightarrow> None | Some s' \<Rightarrow> forM is body s')"

text \<open>
  The inner loop of every descent has the shape
  \<open>for x.level[i].forward != nil && go { acc += x.level[i].span; x = x.level[i].forward }\<close>,
  where \<open>go\<close> looks at the level entry, at the next node and at the accumulator.
  \<open>delete\<close> and \<open>RangeByScore\<close> keep no accumulator; there the result's second
  component is dropped.
\<close>

partial_function (option) advance ::
  "skiplist \<Rightarrow> nat \<Rightarrow> (skiplistLevel \<Rightarrow> skiplistNode \<Rightarrow> int \<Rightarrow> bool) \<Rightarrow> addr \<Rightarrow> int
     \<Rightarrow> (addr \<times> int) option" where
  "advance sl i go x acc =
     (case lev sl x i of None \<Rightarrow> None
      | Some l \<Rightarrow>
          (case forward l of None \<Rightarrow> Some (x, acc)
           | Some y \<Rightarrow>
               (case node sl y of None \<Rightarrow> None
                | Some n \<Rightarrow>
                    if go l n acc then advance sl i go y (acc + span l)
                    else Some (x, acc))))"

declare advance.simps [code]

subsection \<open>Construction\<close>

definition createNode :: "skiplist \<Rightarrow> nat \<Rightarrow> float64 \<Rightarrow> string \<Rightarrow> addr \<times> skiplist" where
  "createNode sl lv sc e =
     (length (store sl),
      sl\<lparr>store := store sl @
        [\<lparr>ele = e, score = sc, backward = None,
          level = replicate lv \<lparr>forward = None, span = 0\<rparr>\<rparr>]\<rparr>)"

definition createSkiplist :: skiplist where
  "createSkiplist =
     \<lparr>store = [\<lparr>ele = [], score = 0, backward = None,
                level = replicate SKIPLIST_MAXLEVEL \<lparr>forward = None, span = 0\<rparr>\<rparr>],
      header = 0, tail = None, length_sl = 0, level_sl = 1\<rparr>"

definition NewZSet :: ZSet where
  "NewZSet = \<lparr>dict = Map.empty, zsl = createSkiplist\<rparr>"

text \<open>
  \<open>randomLevel\<close> draws from the global random source. \<open>coins k\<close> is the outcome
  of the test \<open>rand.Float64() < SKIPLIST_P\<close> at the \<open>k\<close>-th draw of the call.
\<close>

function randomLevel_loop :: "(nat \<Rightarrow> bool) \<Rightarrow> nat \<Rightarrow> nat" where
  "randomLevel_loop coins lv =
     (if coins (lv - 1) \<and> lv < SKIPLIST_MAXLEVEL then randomLevel_loop coins (lv + 1) else lv)"
  by pat_completeness auto
termination
  by (relation "measure (\<lambda>(coins, lv). SKIPLIST_MAXLEVEL - lv)") auto

definition randomLevel :: "(nat \<Rightarrow> bool) \<Rightarrow> nat" where
  "randomLevel coins = randomLevel_loop coins 1"

subsection \<open>insert\<close>

definition key_lt :: "float64 \<Rightarrow> string \<Rightarrow> skiplistLevel \<Rightarrow> skiplistNode \<Rightarrow> int \<Rightarrow> bool" where
  "key_lt sc e l n acc = (f_lt (score n) sc \<or> (f_eq (score n) sc \<and> ele n < e))"

text \<open>
  One round of the search of \<open>insert\<close>, at level \<open>i\<close>. The loop keeps \<open>rank[i]\<close>
  in the accumulator and stores it when it ends.
\<close>

definition insert_find ::
  "skiplist \<Rightarrow> float64 \<Rightarrow> string \<Rightarrow> nat
     \<Rightarrow> addr \<times> addr option list \<times> int list \<Rightarrow> (addr \<times> addr option list \<times> int list) option" where
  "insert_find sl sc e i = (\<lambda>(x, update, rank).
     do {
       r0 \<leftarrow> (if i + 1 = level_sl sl then Some 0 else idx rank (i + 1));
       rank \<leftarrow> upd rank i r0;
       (x, r) \<leftarrow> advance sl i (key_lt sc e) x r0;
       rank \<leftarrow> upd rank i r;
       update \<leftarrow> upd update i (Some x);
       Some (x, update, rank)
     })"

definition insert_raise ::
  "nat \<Rightarrow> addr option list \<times> int list \<times> skiplist \<Rightarrow> (addr option list \<times> int list \<times> skiplist) option" where
  "insert_raise i = (\<lambda>(update, rank, sl).
     do {
       rank \<leftarrow> upd rank i 0;
       update \<leftarrow> upd update i (Some (header sl));
       sl \<leftarrow> set_span sl (header sl) i (length_sl sl);
       Some (update, rank, sl)
     })"

definition insert_splice ::
  "addr \<Rightarrow> addr option list \<Rightarrow> int list \<Rightarrow> nat \<Rightarrow> skiplist \<Rightarrow> skiplist option" where
  "insert_splice x update rank i sl =
     do {
       uo \<leftarrow> idx update i;
       u \<leftarrow> uo;
       ul \<leftarrow> lev sl u i;
       sl \<leftarrow> set_forward sl x i (forward ul);
       sl \<leftarrow> set_forward sl u i (Some x);
       ul \<leftarrow> lev sl u i;
       r0 \<leftarrow> idx rank 0;
       ri \<leftarrow> idx rank i;
       sl \<leftarrow> set_span sl x i (span ul - (r0 - ri));
       set_span sl u i ((r0 - ri) + 1)
     }"

definition insert_bump :: "addr option list \<Rightarrow> nat \<Rightarrow> skiplist \<Rightarrow> skiplist option" where
  "insert_bump update i sl =
     do {
       uo \<leftarrow> idx update i;
       u \<leftarrow> uo;
       ul \<leftarrow> lev sl u i;
       set_span sl u i (span ul + 1)
     }"

definition insert_sl ::
  "skiplist \<Rightarrow> float64 \<Rightarrow> string \<Rightarrow> (nat \<Rightarrow> bool) \<Rightarrow> (addr \<times> skiplist) option" where
  "insert_sl sl sc e coins =
     do {
       (x, update, rank) \<leftarrow>
         forM (rev [0..<level_sl sl]) (insert_find sl sc e)
           (header sl, replicate SKIPLIST_MAXLEVEL None, replicate SKIPLIST_MAXLEVEL 0);
       let lv = randomLevel coins;
       (update, rank, sl) \<leftarrow>
         (if lv > level_sl sl then
            do {
              (update, rank, sl) \<leftarrow> forM [level_sl sl..<lv] insert_raise (update, rank, sl);
              Some (update, rank, sl\<lparr>level_sl := lv\<rparr>)
            }
          else Some (update, rank, sl));
       let (x, sl) = createNode sl lv sc e;
       sl \<leftarrow> forM [0..<lv] (insert_splice x update rank) sl;
       sl \<leftarrow> forM [lv..<level_sl sl] (insert_bump update) sl;
       u0 \<leftarrow> idx update 0;
       sl \<leftarrow> (if u0 = Some (header sl) then set_backward sl x None else set_backward sl x u0);
       xl \<leftarrow> lev sl x 0;
       sl \<leftarrow> (case forward xl of
                Some y \<Rightarrow> set_backward sl y (Some x)
              | None \<Rightarrow> Some (sl\<lparr>tail := Some x\<rparr>));
       Some (x, sl\<lparr>length_sl := length_sl sl + 1\<rparr>)
     }"

subsection \<open>delete\<close>

definition delete_find ::
  "skiplist \<Rightarrow> float64 \<Rightarrow> string \<Rightarrow> nat
     \<Rightarrow> addr \<times> addr option list \<Rightarrow> (addr \<times> addr option list) option" where
  "delete_find sl sc e i = (\<lambda>(x, update).
     do {
       (x, r) \<leftarrow> advance sl i (key_lt sc e) x 0;
       update \<leftarrow> upd update i (Some x);
       Some (x, update)
     })"

definition deleteNode_unlink :: "addr \<Rightarrow> addr option list \<Rightarrow> nat \<Rightarrow> skiplist \<Rightarrow> skiplist option" where
  "deleteNode_unlink x update i sl =
     do {
       uo \<leftarrow> idx update i;
       u \<leftarrow> uo;
       ul \<leftarrow> lev sl u i;
       if forward ul = Some x then
         do {
           xl \<leftarrow> lev sl x i;
           sl \<leftarrow> set_span sl u i (span ul + (span xl - 1));
           xl \<leftarrow> lev sl x i;
           set_forward sl u i (forward xl)
         }
       else set_span sl u i (span ul - 1)
     }"

fun deleteNode_shrink :: "skiplist \<Rightarrow> nat \<Rightarrow> nat option" where
  "deleteNode_shrink sl 0 = Some 0"
| "deleteNode_shrink sl (Suc n) =
     (if 1 < Suc n then
        (case lev sl (header sl) n of None \<Rightarrow> None
         | Some l \<Rightarrow> if forward l = None then deleteNode_shrink sl n else Some (Suc n))
      else Some (Suc n))"

definition deleteNode :: "skiplist \<Rightarrow> addr \<Rightarrow> addr option list \<Rightarrow> skiplist option" where
  "deleteNode sl x update =
     do {
       sl \<leftarrow> forM [0..<level_sl sl] (deleteNode_unlink x update) sl;
       xl \<leftarrow> lev sl x 0;
       xn \<leftarrow> node sl x;
       sl \<leftarrow> (case forward xl of
                Some y \<Rightarrow> set_backward sl y (backward xn)
              | None \<Rightarrow> Some (sl\<lparr>tail := backward xn\<rparr>));
       lv \<leftarrow> deleteNode_shrink sl (level_sl sl);
       Some (sl\<lparr>level_sl := lv, length_sl := length_sl sl - 1\<rparr>)
     }"

definition delete_sl :: "skiplist \<Rightarrow> float64 \<Rightarrow> string \<Rightarrow> (bool \<times> skiplist) option" where
  "delete_sl sl sc e =
     do {
       (x, update) \<leftarrow>
         forM (rev [0..<level_sl sl]) (delete_find sl sc e)
           (header sl, replicate SKIPLIST_MAXLEVEL None);
       xl \<leftarrow> lev sl x 0;
       (case forward xl of
          None \<Rightarrow> Some (False, sl)
        | Some y \<Rightarrow>
            do {
              n \<leftarrow> node sl y;
              if f_eq (score n) sc \<and> ele n = e then
                do { sl \<leftarrow> deleteNode sl y update; Some (True, sl) }
              else Some (False, sl)
            })
     }"

subsection \<open>The operations of the set\<close>

definition Add :: "ZSet \<Rightarrow> string \<Rightarrow> float64 \<Rightarrow> (nat \<Rightarrow> bool) \<Rightarrow> (bool \<times> ZSet) option" where
  "Add z e sc coins =
     (case dict z e of
        Some oldScore \<Rightarrow>
          if f_eq oldScore sc then Some (False, z)
          else
            do {
              (_, sl) \<leftarrow> delete_sl (zsl z) oldScore e;
              (_, sl) \<leftarrow> insert_sl sl sc e coins;
              Some (False, \<lparr>dict = (dict z)(e \<mapsto> sc), zsl = sl\<rparr>)
            }
      | None \<Rightarrow>
          do {
            (_, sl) \<leftarrow> insert_sl (zsl z) sc e coins;
            Some (True, \<lparr>dict = (dict z)(e \<mapsto> sc), zsl = sl\<rparr>)
          })"

definition Remove :: "ZSet \<Rightarrow> string \<Rightarrow> (bool \<times> ZSet) option" where
  "Remove z e =
     (case dict z e of
        None \<Rightarrow> Some (False, z)
      | Some sc \<Rightarrow>
          do {
            (_, sl) \<leftarrow> delete_sl (zsl z) sc e;
            Some (True, \<lparr>dict = (dict z)(e := None), zsl = sl\<rparr>)
          })"

definition Score :: "ZSet \<Rightarrow> string \<Rightarrow> float64 \<times> bool" where
  "Score z e = (case dict z e of None \<Rightarrow> (0, False) | Some sc \<Rightarrow> (sc, True))"

definition Len :: "ZSet \<Rightarrow> int" where
  "Len z = length_sl (zsl z)"

subsection \<open>Rank queries\<close>

definition key_le :: "float64 \<Rightarrow> string \<Rightarrow> skiplistLevel \<Rightarrow> skiplistNode \<Rightarrow> int \<Rightarrow> bool" where
  "key_le sc e l n acc = (f_lt (score n) sc \<or> (f_eq (score n) sc \<and> ele n \<le> e))"

text \<open>
  The descents of \<open>getRank\<close> and \<open>getElementByRank\<close> return from inside the loop
  over the levels; the argument counts the levels still to visit.
\<close>

fun getRank_loop :: "skiplist \<Rightarrow> float64 \<Rightarrow> string \<Rightarrow> nat \<Rightarrow> addr \<Rightarrow> int \<Rightarrow> int option" where
  "getRank_loop sl sc e 0 x rank = Some 0"
| "getRank_loop sl sc e (Suc i) x rank =
     do {
       (x, rank) \<leftarrow> advance sl i (key_le sc e) x rank;
       n \<leftarrow> node sl x;
       if x \<noteq> header sl \<and> f_eq (score n) sc \<and> ele n = e then Some rank
       else getRank_loop sl sc e i x rank
     }"

definition getRank :: "skiplist \<Rightarrow> float64 \<Rightarrow> string \<Rightarrow> int option" where
  "getRank sl sc e = getRank_loop sl sc e (level_sl sl) (header sl) 0"

definition Rank :: "ZSet \<Rightarrow> string \<Rightarrow> bool \<Rightarrow> int option" where
  "Rank z e reverse =
     (case dict z e of
        None \<Rightarrow> Some (- 1)
      | Some sc \<Rightarrow>
          do {
            rank \<leftarrow> getRank (zsl z) sc e;
            if rank = 0 then Some (- 1)
            else if reverse then Some (length_sl (zsl z) - (rank - 1) - 1)
            else Some (rank - 1)
          })"

definition within :: "int \<Rightarrow> skiplistLevel \<Rightarrow> skiplistNode \<Rightarrow> int \<Rightarrow> bool" where
  "within rank l n traversed = (traversed + span l \<le> rank)"

fun getElementByRank_loop :: "skiplist \<Rightarrow> int \<Rightarrow> nat \<Rightarrow> addr \<Rightarrow> int \<Rightarrow> addr option option" where
  "getElementByRank_loop sl rank 0 x traversed = Some None"
| "getElementByRank_loop sl rank (Suc i) x traversed =
     do {
       (x, traversed) \<leftarrow> advance sl i (within rank) x traversed;
       if traversed = rank then Some (Some x)
       else getElementByRank_loop sl rank i x traversed
     }"

definition getElementByRank :: "skiplist \<Rightarrow> int \<Rightarrow> addr option option" where
  "getElementByRank sl rank =
     (if rank = 0 \<or> rank > length_sl sl then Some None
      else getElementByRank_loop sl rank (level_sl sl) (header sl) 0)"

definition GetByRank :: "ZSet \<Rightarrow> int \<Rightarrow> bool \<Rightarrow> (string \<times> float64 \<times> bool) option" where
  "GetByRank z rank reverse =
     (if rank < 0 \<or> rank \<ge> length_sl (zsl z) then Some ([], 0, False)
      else
        do {
          let rank = (if reverse then length_sl (zsl z) - 1 - rank else rank);
          r \<leftarrow> getElementByRank (zsl z) (rank + 1);
          (case r of
             None \<Rightarrow> Some ([], 0, False)
           | Some a \<Rightarrow> do { n \<leftarrow> node (zsl z) a; Some (ele n, score n, True) })
        })"

subsection \<open>RangeByScore\<close>

definition below :: "float64 \<Rightarrow> skiplistLevel \<Rightarrow> skiplistNode \<Rightarrow> int \<Rightarrow> bool" where
  "below mn l n acc = f_lt (score n) mn"

definition range_find :: "skiplist \<Rightarrow> float64 \<Rightarrow> nat \<Rightarrow> addr \<Rightarrow> addr option" where
  "range_find sl mn i x = map_option fst (advance sl i (below mn) x 0)"

partial_function (option) range_skip ::
  "skiplist \<Rightarrow> float64 \<Rightarrow> int \<Rightarrow> addr option \<Rightarrow> int \<Rightarrow> addr option option" where
  "range_skip sl mx offset x skipped =
     (case x of
        None \<Rightarrow> Some x
      | Some a \<Rightarrow>
          if skipped < offset then
            (case node sl a of None \<Rightarrow> None
             | Some n \<Rightarrow>
                 if f_gt (score n) mx then Some x
                 else
                   (case lev sl a 0 of None \<Rightarrow> None
                    | Some l \<Rightarrow> range_skip sl mx offset (forward l) (skipped + 1)))
          else Some x)"

partial_function (option) range_collect ::
  "skiplist \<Rightarrow> float64 \<Rightarrow> int \<Rightarrow> addr option \<Rightarrow> int \<Rightarrow> (string \<times> float64) list
     \<Rightarrow> (string \<times> float64) list option" where
  "range_collect sl mx count x returned result =
     (case x of
        None \<Rightarrow> Some result
      | Some a \<Rightarrow>
          if count < 0 \<or> returned < count then
            (case node sl a of None \<Rightarrow> None
             | Some n \<Rightarrow>
                 if f_gt (score n) mx then Some result
                 else
                   (case lev sl a 0 of None \<Rightarrow> None
                    | Some l \<Rightarrow>
                        range_collect sl mx count (forward l) (returned + 1)
                          (result @ [(ele n, score n)])))
          else Some result)"

declare range_skip.simps [code]

declare range_collect.simps [code]

definition RangeByScore ::
  "ZSet \<Rightarrow> float64 \<Rightarrow> float64 \<Rightarrow> int \<Rightarrow> int \<Rightarrow> (string \<times> float64) list option" where
  "RangeByScore z mn mx offset count =
     do {
       let offset = (if offset < 0 then 0 else offset);
       x \<leftarrow> forM (rev [0..<level_sl (zsl z)]) (range_find (zsl z) mn) (header (zsl z));
       xl \<leftarrow> lev (zsl z) x 0;
       x \<leftarrow> range_skip (zsl z) mx offset (forward xl) 0;
       range_collect (zsl z) mx count x 0 []
     }"

subsection \<open>Cells of the store\<close>

definition ht :: "skiplist \<Rightarrow> addr \<Rightarrow> nat" where
  "ht sl a = length (level (store sl ! a))"

definition fw :: "skiplist \<Rightarrow> addr \<Rightarrow> nat \<Rightarrow> addr option" where
  "fw sl a i = forward (level (store sl ! a) ! i)"

definition sp :: "skiplist \<Rightarrow> addr \<Rightarrow> nat \<Rightarrow> int" where
  "sp sl a i = span (level (store sl ! a) ! i)"

definition put_lev :: "skiplist \<Rightarrow> addr \<Rightarrow> nat \<Rightarrow> skiplistLevel \<Rightarrow> skiplist" where
  "put_lev sl a i l =
     sl\<lparr>store := (store sl)[a := (store sl ! a)\<lparr>level := (level (store sl ! a))[i := l]\<rparr>]\<rparr>"

definition put_fw :: "skiplist \<Rightarrow> addr \<Rightarrow> nat \<Rightarrow> addr option \<Rightarrow> skiplist" where
  "put_fw sl a i v = put_lev sl a i ((level (store sl ! a) ! i)\<lparr>forward := v\<rparr>)"

definition put_sp :: "skiplist \<Rightarrow> addr \<Rightarrow> nat \<Rightarrow> int \<Rightarrow> skiplist" where
  "put_sp sl a i v = put_lev sl a i ((level (store sl ! a) ! i)\<lparr>span := v\<rparr>)"

definition put_bw :: "skiplist \<Rightarrow> addr \<Rightarrow> addr option \<Rightarrow> skiplist" where
  "put_bw sl a v = sl\<lparr>store := (store sl)[a := (store sl ! a)\<lparr>backward := v\<rparr>]\<rparr>"

lemma idx_Some [simp]: "idx xs i = Some v \<longleftrightarrow> i < length xs \<and> v = xs ! i"
  by (auto simp: idx_def)

lemma idx_None [simp]: "idx xs i = None \<longleftrightarrow> length xs \<le> i"
  by (auto simp: idx_def)

lemma upd_Some [simp]: "upd xs i v = Some ys \<longleftrightarrow> i < length xs \<and> ys = xs[i := v]"
  by (auto simp: upd_def)

lemma upd_None [simp]: "upd xs i v = None \<longleftrightarrow> length xs \<le> i"
  by (auto simp: upd_def)

lemma node_Some [simp]: "node sl a = Some n \<longleftrightarrow> a < length (store sl) \<and> n = store sl ! a"
  by (auto simp: node_def)

lemma node_None [simp]: "node sl a = None \<longleftrightarrow> length (store sl) \<le> a"
  by (auto simp: node_def)

lemma lev_Some [simp]:
  "lev sl a i = Some l \<longleftrightarrow> a < length (store sl) \<and> i < ht sl a \<and> l = level (store sl ! a) ! i"
  by (auto simp: lev_def ht_def split: option.splits)

lemma lev_None [simp]: "lev sl a i = None \<longleftrightarrow> \<not> (a < length (store sl) \<and> i < ht sl a)"
  by (auto simp: lev_def ht_def split: option.splits)

lemma set_lev_Some [simp]:
  "set_lev sl a i l = Some sl' \<longleftrightarrow> a < length (store sl) \<and> i < ht sl a \<and> sl' = put_lev sl a i l"
  by (auto simp: set_lev_def put_lev_def ht_def split: option.splits)

lemma set_forward_Some [simp]:
  "set_forward sl a i v = Some sl' \<longleftrightarrow> a < length (store sl) \<and> i < ht sl a \<and> sl' = put_fw sl a i v"
  by (auto simp: set_forward_def put_fw_def split: option.splits)

lemma set_span_Some [simp]:
  "set_span sl a i v = Some sl' \<longleftrightarrow> a < length (store sl) \<and> i < ht sl a \<and> sl' = put_sp sl a i v"
  by (auto simp: set_span_def put_sp_def split: option.splits)

lemma set_backward_Some [simp]:
  "set_backward sl a v = Some sl' \<longleftrightarrow> a < length (store sl) \<and> sl' = put_bw sl a v"
  by (auto simp: set_backward_def put_bw_def split: option.splits)

lemma nth_upd_gen: "(xs[a := v]) ! b = (if b = a \<and> a < length xs then v else xs ! b)"
  by (cases "a < length xs") (auto simp: nth_list_update list_update_beyond)

lemma put_lev_fields [simp]:
  "header (put_lev sl a i l) = header sl"
  "tail (put_lev sl a i l) = tail sl"
  "length_sl (put_lev sl a i l) = length_sl sl"
  "level_sl (put_lev sl a i l) = level_sl sl"
  "length (store (put_lev sl a i l)) = length (store sl)"
  "ht (put_lev sl a i l) b = ht sl b"
  "ele (store (put_lev sl a i l) ! b) = ele (store sl ! b)"
  "score (store (put_lev sl a i l) ! b) = score (store sl ! b)"
  by (auto simp: put_lev_def ht_def nth_upd_gen)

lemma put_fw_fields [simp]:
  "header (put_fw sl a i v) = header sl"
  "tail (put_fw sl a i v) = tail sl"
  "length_sl (put_fw sl a i v) = length_sl sl"
  "level_sl (put_fw sl a i v) = level_sl sl"
  "length (store (put_fw sl a i v)) = length (store sl)"
  "ht (put_fw sl a i v) b = ht sl b"
  "ele (store (put_fw sl a i v) ! b) = ele (store sl ! b)"
  "score (store (put_fw sl a i v) ! b) = score (store sl ! b)"
  "sp (put_fw sl a i v) b j = sp sl b j"
  by (auto simp: put_fw_def put_lev_def ht_def sp_def nth_upd_gen)

lemma put_sp_fields [simp]:
  "header (put_sp sl a i v) = header sl"
  "tail (put_sp sl a i v) = tail sl"
  "length_sl (put_sp sl a i v) = length_sl sl"
  "level_sl (put_sp sl a i v) = level_sl sl"
  "length (store (put_sp sl a i v)) = length (store sl)"
  "ht (put_sp sl a i v) b = ht sl b"
  "ele (store (put_sp sl a i v) ! b) = ele (store sl ! b)"
  "score (store (put_sp sl a i v) ! b) = score (store sl ! b)"
  "fw (put_sp sl a i v) b j = fw sl b j"
  by (auto simp: put_sp_def put_lev_def ht_def fw_def nth_upd_gen)

lemma put_bw_fields [simp]:
  "header (put_bw sl a v) = header sl"
  "tail (put_bw sl a v) = tail sl"
  "length_sl (put_bw sl a v) = length_sl sl"
  "level_sl (put_bw sl a v) = level_sl sl"
  "length (store (put_bw sl a v)) = length (store sl)"
  "ht (put_bw sl a v) b = ht sl b"
  "ele (store (put_bw sl a v) ! b) = ele (store sl ! b)"
  "score (store (put_bw sl a v) ! b) = score (store sl ! b)"
  "fw (put_bw sl a v) b j = fw sl b j"
  "sp (put_bw sl a v) b j = sp sl b j"
  by (auto simp: put_bw_def ht_def fw_def sp_def nth_upd_gen)

lemma fw_put_fw [simp]:
  "a < length (store sl) \<Longrightarrow> i < ht sl a \<Longrightarrow>
   fw (put_fw sl a i v) b j = (if b = a \<and> j = i then v else fw sl b j)"
  by (auto simp: put_fw_def put_lev_def ht_def fw_def nth_upd_gen)

lemma sp_put_sp [simp]:
  "a < length (store sl) \<Longrightarrow> i < ht sl a \<Longrightarrow>
   sp (put_sp sl a i v) b j = (if b = a \<and> j = i then v else sp sl b j)"
  by (auto simp: put_sp_def put_lev_def ht_def sp_def nth_upd_gen)

subsection \<open>Level consistency\<close>

definition top_level :: "skiplist \<Rightarrow> nat" where
  "top_level sl =
     length (dropWhile (\<lambda>l. forward l = None) (rev (level (store sl ! header sl))))"

inductive reachable :: "ZSet \<Rightarrow> bool" where
  reachable_new: "reachable NewZSet"
| reachable_Add: "reachable z \<Longrightarrow> Add z e sc coins = Some (b, z') \<Longrightarrow> reachable z'"
| reachable_Remove: "reachable z \<Longrightarrow> Remove z e = Some (b, z') \<Longrightarrow> reachable z'"

definition level_ok :: "skiplist \<Rightarrow> bool" where
  "level_ok sl \<longleftrightarrow>
     header sl < length (store sl) \<and> ht sl (header sl) = SKIPLIST_MAXLEVEL \<and>
     1 \<le> level_sl sl \<and> level_sl sl \<le> SKIPLIST_MAXLEVEL \<and>
     (\<forall>j. level_sl sl \<le> j \<and> j < SKIPLIST_MAXLEVEL \<longrightarrow> fw sl (header sl) j = None) \<and>
     (1 < level_sl sl \<longrightarrow> fw sl (header sl) (level_sl sl - 1) \<noteq> None)"

lemma length_dropWhile_rev_le:
  "(\<forall>j. n \<le> j \<and> j < length xs \<longrightarrow> P (xs ! j)) \<Longrightarrow> length (dropWhile P (rev xs)) \<le> n"
proof (induction xs rule: rev_induct)
  case Nil
  then show ?case by simp
next
  case (snoc x xs)
  show ?case
  proof (cases "n \<le> length xs")
    case True
    with snoc.prems have "P x" by (auto simp: nth_append)
    moreover have "\<forall>j. n \<le> j \<and> j < length xs \<longrightarrow> P (xs ! j)"
      using snoc.prems by (auto simp: nth_append)
    ultimately show ?thesis using snoc.IH by simp
  next
    case False
    have "length (dropWhile P (rev (xs @ [x]))) \<le> length (xs @ [x])"
      by (metis length_dropWhile_le length_rev)
    with False show ?thesis by simp
  qed
qed

lemma length_dropWhile_rev_ge:
  "k < length xs \<Longrightarrow> \<not> P (xs ! k) \<Longrightarrow> k < length (dropWhile P (rev xs))"
proof (induction xs rule: rev_induct)
  case Nil
  then show ?case by simp
next
  case (snoc x xs)
  then show ?case by (cases "k < length xs") (auto simp: nth_append less_Suc_eq)
qed

lemma level_ok_top_level:
  assumes "level_ok sl"
  shows "level_sl sl = max 1 (top_level sl)"
proof -
  let ?xs = "level (store sl ! header sl)"
  let ?P = "\<lambda>l. forward l = None"
  from assms have len: "length ?xs = SKIPLIST_MAXLEVEL" and l1: "1 \<le> level_sl sl"
    and l2: "level_sl sl \<le> SKIPLIST_MAXLEVEL"
    and above: "\<forall>j. level_sl sl \<le> j \<and> j < length ?xs \<longrightarrow> ?P (?xs ! j)"
    and top: "1 < level_sl sl \<longrightarrow> \<not> ?P (?xs ! (level_sl sl - 1))"
    by (auto simp: level_ok_def ht_def fw_def)
  have le: "top_level sl \<le> level_sl sl"
    unfolding top_level_def using above by (rule length_dropWhile_rev_le)
  show ?thesis
  proof (cases "1 < level_sl sl")
    case True
    with top l2 len have "level_sl sl - 1 < top_level sl"
      unfolding top_level_def by (intro length_dropWhile_rev_ge) auto
    with le True show ?thesis by simp
  next
    case False
    with l1 le show ?thesis by simp
  qed
qed

lemma cells_field_update [simp]:
  "ht (sl\<lparr>level_sl := n\<rparr>) = ht sl" "fw (sl\<lparr>level_sl := n\<rparr>) = fw sl" "sp (sl\<lparr>level_sl := n\<rparr>) = sp sl"
  "ht (sl\<lparr>length_sl := k\<rparr>) = ht sl" "fw (sl\<lparr>length_sl := k\<rparr>) = fw sl" "sp (sl\<lparr>length_sl := k\<rparr>) = sp sl"
  "ht (sl\<lparr>tail := t\<rparr>) = ht sl" "fw (sl\<lparr>tail := t\<rparr>) = fw sl" "sp (sl\<lparr>tail := t\<rparr>) = sp sl"
  by (simp_all add: ht_def fw_def sp_def fun_eq_iff)

lemma createNode_fields [simp]:
  "fst (createNode sl lv sc e) = length (store sl)"
  "header (snd (createNode sl lv sc e)) = header sl"
  "tail (snd (createNode sl lv sc e)) = tail sl"
  "length_sl (snd (createNode sl lv sc e)) = length_sl sl"
  "level_sl (snd (createNode sl lv sc e)) = level_sl sl"
  "length (store (snd (createNode sl lv sc e))) = Suc (length (store sl))"
  by (simp_all add: createNode_def)

lemma createNode_old [simp]:
  "a < length (store sl) \<Longrightarrow> ht (snd (createNode sl lv sc e)) a = ht sl a"
  "a < length (store sl) \<Longrightarrow> fw (snd (createNode sl lv sc e)) a j = fw sl a j"
  "a < length (store sl) \<Longrightarrow> sp (snd (createNode sl lv sc e)) a j = sp sl a j"
  "a < length (store sl) \<Longrightarrow> ele (store (snd (createNode sl lv sc e)) ! a) = ele (store sl ! a)"
  "a < length (store sl) \<Longrightarrow> score (store (snd (createNode sl lv sc e)) ! a) = score (store sl ! a)"
  by (simp_all add: createNode_def ht_def fw_def sp_def nth_append)

lemma createNode_new [simp]:
  "ht (snd (createNode sl lv sc e)) (length (store sl)) = lv"
  "j < lv \<Longrightarrow> fw (snd (createNode sl lv sc e)) (length (store sl)) j = None"
  "j < lv \<Longrightarrow> sp (snd (createNode sl lv sc e)) (length (store sl)) j = 0"
  "ele (store (snd (createNode sl lv sc e)) ! length (store sl)) = e"
  "score (store (snd (createNode sl lv sc e)) ! length (store sl)) = sc"
  by (simp_all add: createNode_def ht_def fw_def sp_def nth_append)

declare randomLevel_loop.simps [simp del]

lemma randomLevel_loop_bounds:
  "1 \<le> lv \<Longrightarrow> lv \<le> SKIPLIST_MAXLEVEL \<Longrightarrow>
   1 \<le> randomLevel_loop coins lv \<and> randomLevel_loop coins lv \<le> SKIPLIST_MAXLEVEL"
proof (induction coins lv rule: randomLevel_loop.induct)
  case (1 coins lv)
  show ?case
  proof (cases "coins (lv - 1) \<and> lv < SKIPLIST_MAXLEVEL")
    case True
    then have "randomLevel_loop coins lv = randomLevel_loop coins (lv + 1)"
      by (subst randomLevel_loop.simps) simp
    with 1 True show ?thesis by simp
  next
    case False
    then have "randomLevel_loop coins lv = lv"
      by (subst randomLevel_loop.simps) auto
    with 1 show ?thesis by simp
  qed
qed

lemma randomLevel_bounds: "1 \<le> randomLevel coins" "randomLevel coins \<le> SKIPLIST_MAXLEVEL"
  using randomLevel_loop_bounds [of 1 coins] by (simp_all add: randomLevel_def SKIPLIST_MAXLEVEL_def)

lemma forM_append:
  "forM (xs @ ys) body s = (case forM xs body s of None \<Rightarrow> None | Some s' \<Rightarrow> forM ys body s')"
  by (induction xs arbitrary: s) (auto split: option.splits)

lemma forM_inv:
  assumes "forM xs body s = Some s'" and "P s"
    and "\<And>i t t'. i \<in> set xs \<Longrightarrow> P t \<Longrightarrow> body i t = Some t' \<Longrightarrow> P t'"
  shows "P s'"
  using assms
proof (induction xs arbitrary: s)
  case Nil
  then show ?case by simp
next
  case (Cons a xs)
  from Cons.prems(1) obtain t where t: "body a s = Some t" "forM xs body t = Some s'"
    by (auto split: option.splits)
  have "P t" using Cons.prems(3) [OF _ Cons.prems(2) t(1)] by simp
  then show ?case using Cons.IH [OF t(2)] Cons.prems(3) by auto
qed

definition same_frame :: "skiplist \<Rightarrow> skiplist \<Rightarrow> bool" where
  "same_frame s s' \<longleftrightarrow>
     header s' = header s \<and> level_sl s' = level_sl s \<and> length_sl s' = length_sl s \<and>
     length (store s') = length (store s) \<and> (\<forall>a. ht s' a = ht s a) \<and>
     (\<forall>a. ele (store s' ! a) = ele (store s ! a)) \<and>
     (\<forall>a. score (store s' ! a) = score (store s ! a))"

lemma same_frame_refl [simp]: "same_frame s s"
  by (simp add: same_frame_def)

lemma same_frame_trans: "same_frame s t \<Longrightarrow> same_frame t u \<Longrightarrow> same_frame s u"
  by (simp add: same_frame_def)

lemma same_frame_put [simp]:
  "same_frame s (put_fw s a i v)" "same_frame s (put_sp s a i w)" "same_frame s (put_bw s a v)"
  "same_frame s (s\<lparr>tail := t\<rparr>)"
  by (simp_all add: same_frame_def)

lemma insert_splice_header:
  assumes "insert_splice x u r i s = Some s'" and "x \<noteq> header s"
  shows "same_frame s s' \<and>
    (\<forall>j. fw s' (header s) j = (if j = i \<and> u ! i = Some (header s) then Some x else fw s (header s) j))"
  using assms
  by (auto simp: insert_splice_def bind_eq_Some_conv same_frame_def)

lemma insert_splice_loop_header:
  assumes "forM xs (insert_splice x u r) s = Some s'" and "x \<noteq> header s"
  shows "same_frame s s' \<and>
    (\<forall>j. fw s' (header s) j = (if j \<in> set xs \<and> u ! j = Some (header s) then Some x else fw s (header s) j))"
  using assms
proof (induction xs arbitrary: s)
  case Nil
  then show ?case by simp
next
  case (Cons i xs)
  from Cons.prems(1) obtain t where t: "insert_splice x u r i s = Some t"
    "forM xs (insert_splice x u r) t = Some s'"
    by (auto split: option.splits)
  note st = insert_splice_header [OF t(1) Cons.prems(2)]
  then have h: "header t = header s" by (simp add: same_frame_def)
  with Cons.prems(2) have "x \<noteq> header t" by simp
  note ts = Cons.IH [OF t(2) this]
  show ?case using st ts h by (auto intro: same_frame_trans)
qed

lemma insert_bump_loop_header:
  assumes "forM xs (insert_bump u) s = Some s'"
  shows "same_frame s s' \<and> fw s' = fw s"
  using assms
  by (rule forM_inv) (auto simp: insert_bump_def bind_eq_Some_conv fun_eq_iff intro: same_frame_trans)

lemma insert_raise_loop:
  assumes "forM xs insert_raise (u, r, s) = Some (u', r', s')"
  shows "same_frame s s' \<and> fw s' = fw s \<and> length u' = length u \<and> length r' = length r \<and>
    (\<forall>j. u' ! j = (if j \<in> set xs then Some (header s) else u ! j)) \<and>
    (\<forall>j. r' ! j = (if j \<in> set xs then 0 else r ! j))"
  using assms
proof (induction xs arbitrary: u r s)
  case Nil
  then show ?case by simp
next
  case (Cons i xs)
  from Cons.prems obtain u1 r1 s1 where t: "insert_raise i (u, r, s) = Some (u1, r1, s1)"
    "forM xs insert_raise (u1, r1, s1) = Some (u', r', s')"
    by (auto split: option.splits)
  from t(1) have 1: "same_frame s s1" "fw s1 = fw s" "u1 = u[i := Some (header s)]" "r1 = r[i := 0]"
    "i < length u" "i < length r"
    by (auto simp: insert_raise_def bind_eq_Some_conv fun_eq_iff)
  from 1 have h: "header s1 = header s" by (simp add: same_frame_def)
  show ?case using Cons.IH [OF t(2)] 1 h
    by (auto intro: same_frame_trans simp: nth_list_update)
qed

lemma insert_sl_header:
  assumes "insert_sl sl sc e coins = Some (x, sl')" and "header sl < length (store sl)"
  shows "header sl' = header sl \<and> x = length (store sl) \<and>
    length (store sl') = Suc (length (store sl)) \<and>
    ht sl' (header sl) = ht sl (header sl) \<and>
    level_sl sl' = max (randomLevel coins) (level_sl sl) \<and>
    (\<forall>j. fw sl' (header sl) j = fw sl (header sl) j \<or>
         (j < randomLevel coins \<and> fw sl' (header sl) j = Some x)) \<and>
    (level_sl sl < randomLevel coins \<longrightarrow> fw sl' (header sl) (randomLevel coins - 1) = Some x)"
proof -
  let ?lv = "randomLevel coins"
  let ?h = "header sl"
  from assms(1) obtain x0 u0 r0 u r s1 s3 s4 s5 s6 where
    raise: "(if level_sl sl < ?lv then
              forM [level_sl sl..<?lv] insert_raise (u0, r0, sl) \<bind>
                (\<lambda>(update, rank, sl). Some (update, rank, sl\<lparr>level_sl := ?lv\<rparr>))
            else Some (u0, r0, sl)) = Some (u, r, s1)"
    and splice: "forM [0..<?lv] (insert_splice (length (store s1)) u r) (snd (createNode s1 ?lv sc e)) = Some s3"
    and bump: "forM [?lv..<level_sl s3] (insert_bump u) s3 = Some s4"
    and bw1: "(if u ! 0 = Some (header s4) then set_backward s4 (length (store s1)) None
              else set_backward s4 (length (store s1)) (u ! 0)) = Some s5"
    and bw2: "(case fw s5 (length (store s1)) 0 of
                None \<Rightarrow> Some (s5\<lparr>tail := Some (length (store s1))\<rparr>)
              | Some y \<Rightarrow> set_backward s5 y (Some (length (store s1)))) = Some s6"
    and res: "x = length (store s1)" "sl' = s6\<lparr>length_sl := length_sl s6 + 1\<rparr>"
    by (auto simp: insert_sl_def bind_eq_Some_conv Let_def split_beta fw_def
        cong: if_cong option.case_cong)
  have 1: "same_frame sl (s1\<lparr>level_sl := level_sl sl\<rparr>)" "fw s1 = fw sl"
    "level_sl s1 = max ?lv (level_sl sl)"
    "level_sl sl < ?lv \<longrightarrow> u ! (?lv - 1) = Some ?h"
    using raise randomLevel_bounds(1) [of coins]
    by (auto simp: bind_eq_Some_conv same_frame_def dest!: insert_raise_loop split: if_splits)
  then have len1: "length (store s1) = length (store sl)" and h1: "header s1 = ?h"
    and ht1: "ht s1 ?h = ht sl ?h"
    by (simp_all add: same_frame_def)
  let ?x = "length (store sl)"
  let ?c = "snd (createNode s1 ?lv sc e)"
  have xh: "?x \<noteq> header ?c" using assms(2) h1 by simp
  note sp = insert_splice_loop_header [OF splice [unfolded len1] xh]
  have fc: "fw ?c ?h = fw sl ?h" "ht ?c ?h = ht sl ?h"
    using assms(2) len1 1(2) ht1 by (auto simp: fun_eq_iff)
  from sp have 3: "header s3 = ?h" "level_sl s3 = level_sl s1" "length (store s3) = Suc ?x"
    "ht s3 ?h = ht sl ?h"
    "\<forall>j. fw s3 ?h j = (if j < ?lv \<and> u ! j = Some ?h then Some ?x else fw sl ?h j)"
    using h1 len1 fc by (simp_all add: same_frame_def)
  from insert_bump_loop_header [OF bump] have 4: "same_frame s3 s4" "fw s4 = fw s3" by simp_all
  from bw1 have 5: "same_frame s4 s5" "fw s5 = fw s4"
    by (auto simp: fun_eq_iff split: if_splits)
  from bw2 have 6: "same_frame s5 s6" "fw s6 = fw s5"
    by (auto simp: fun_eq_iff split: option.splits)
  have fin: "header sl' = header s3" "level_sl sl' = level_sl s3"
    "length (store sl') = length (store s3)" "ht sl' = ht s3" "fw sl' = fw s3"
    using 4 5 6 res(2) by (auto simp: same_frame_def fun_eq_iff)
  show ?thesis
    using fin 3 1(3,4) res(1) len1 randomLevel_bounds(1) [of coins]
    by (auto simp: same_frame_def)
qed

lemma deleteNode_unlink_header:
  assumes "forM xs (deleteNode_unlink x u) s = Some s'"
  shows "same_frame s s' \<and> (\<forall>a j. j \<notin> set xs \<longrightarrow> fw s' a j = fw s a j)"
proof -
  have "same_frame s s' \<and> (\<forall>a j. j \<notin> set xs \<longrightarrow> fw s' a j = fw s a j)"
    using assms
  proof (rule forM_inv [where P = "\<lambda>t. same_frame s t \<and> (\<forall>a j. j \<notin> set xs \<longrightarrow> fw t a j = fw s a j)"])
    show "same_frame s s \<and> (\<forall>a j. j \<notin> set xs \<longrightarrow> fw s a j = fw s a j)" by simp
  next
    fix i t t'
    assume "i \<in> set xs" "same_frame s t \<and> (\<forall>a j. j \<notin> set xs \<longrightarrow> fw t a j = fw s a j)"
      "deleteNode_unlink x u i t = Some t'"
    then show "same_frame s t' \<and> (\<forall>a j. j \<notin> set xs \<longrightarrow> fw t' a j = fw s a j)"
      by (auto simp: deleteNode_unlink_def bind_eq_Some_conv same_frame_def split: if_splits)
  qed
  then show ?thesis .
qed

lemma deleteNode_shrink_spec:
  assumes "deleteNode_shrink sl n = Some k"
  shows "k \<le> n \<and> (1 \<le> n \<longrightarrow> 1 \<le> k) \<and> (\<forall>j. k \<le> j \<and> j < n \<longrightarrow> fw sl (header sl) j = None) \<and>
    (1 < k \<longrightarrow> fw sl (header sl) (k - 1) \<noteq> None)"
  using assms
proof (induction n)
  case 0
  then show ?case by simp
next
  case (Suc n)
  show ?case
  proof (cases "1 < Suc n \<and> fw sl (header sl) n = None")
    case True
    with Suc.prems have "deleteNode_shrink sl n = Some k"
      by (auto simp: fw_def split: option.splits if_splits)
    from Suc.IH [OF this] True show ?thesis
      by (auto simp: less_Suc_eq)
  next
    case False
    with Suc.prems have "k = Suc n"
      by (auto simp: fw_def split: option.splits if_splits)
    with False show ?thesis by auto
  qed
qed

lemma deleteNode_level_ok:
  assumes "deleteNode sl x u = Some sl'" and "level_ok sl"
  shows "level_ok sl'"
proof -
  from assms(1) obtain s1 s2 k where
    unlink: "forM [0..<level_sl sl] (deleteNode_unlink x u) sl = Some s1"
    and bw: "(case fw s1 x 0 of None \<Rightarrow> Some (s1\<lparr>tail := backward (store s1 ! x)\<rparr>)
             | Some y \<Rightarrow> set_backward s1 y (backward (store s1 ! x))) = Some s2"
    and shrink: "deleteNode_shrink s2 (level_sl s2) = Some k"
    and res: "sl' = s2\<lparr>level_sl := k, length_sl := length_sl s2 - 1\<rparr>"
    by (auto simp: deleteNode_def bind_eq_Some_conv fw_def)
  note 1 = deleteNode_unlink_header [OF unlink]
  from bw have 2: "same_frame s1 s2" "fw s2 = fw s1"
    by (auto simp: fun_eq_iff split: option.splits)
  from 1 2 have f: "same_frame sl s2" "\<forall>a j. level_sl sl \<le> j \<longrightarrow> fw s2 a j = fw sl a j"
    by (auto intro: same_frame_trans)
  then have l: "level_sl s2 = level_sl sl" "header s2 = header sl" by (simp_all add: same_frame_def)
  note 3 = deleteNode_shrink_spec [OF shrink, unfolded l]
  show ?thesis
    using assms(2) f 3 res
    apply (simp add: level_ok_def same_frame_def)
    by (metis le_trans not_le)
qed

lemma insert_sl_level_ok:
  assumes "insert_sl sl sc e coins = Some (x, sl')" and "level_ok sl"
  shows "level_ok sl'"
proof -
  from assms(2) have v: "header sl < length (store sl)" by (simp add: level_ok_def)
  note h = insert_sl_header [OF assms(1) v]
  from h have "\<forall>j. fw sl' (header sl) j = fw sl (header sl) j \<or> fw sl' (header sl) j = Some x"
    by blast
  then have "fw sl' (header sl) (level_sl sl - 1) = fw sl (header sl) (level_sl sl - 1) \<or>
      fw sl' (header sl) (level_sl sl - 1) = Some x" ..
  then have x: "fw sl (header sl) (level_sl sl - 1) \<noteq> None \<Longrightarrow>
      fw sl' (header sl) (level_sl sl - 1) \<noteq> None"
    by auto
  show ?thesis
    unfolding level_ok_def
  proof (intro conjI allI impI)
    show "header sl' < length (store sl')" using h v by simp
    show "ht sl' (header sl') = SKIPLIST_MAXLEVEL" using h assms(2) by (simp add: level_ok_def)
    show "1 \<le> level_sl sl'" using h randomLevel_bounds(1) [of coins] by simp
    show "level_sl sl' \<le> SKIPLIST_MAXLEVEL"
      using h randomLevel_bounds(2) [of coins] assms(2) by (simp add: level_ok_def)
  next
    fix j assume j: "level_sl sl' \<le> j \<and> j < SKIPLIST_MAXLEVEL"
    with h have "fw sl' (header sl) j = fw sl (header sl) j" by auto
    with j h assms(2) show "fw sl' (header sl') j = None" by (simp add: level_ok_def)
  next
    assume 1: "1 < level_sl sl'"
    show "fw sl' (header sl') (level_sl sl' - 1) \<noteq> None"
    proof (cases "level_sl sl < randomLevel coins")
      case True
      with h show ?thesis by (simp add: max_def)
    next
      case False
      with h have l: "level_sl sl' = level_sl sl" by (simp add: max_def)
      with 1 assms(2) have "fw sl (header sl) (level_sl sl - 1) \<noteq> None" by (simp add: level_ok_def)
      from x [OF this] l h show ?thesis by simp
    qed
  qed
qed

lemma delete_sl_level_ok:
  assumes "delete_sl sl sc e = Some (b, sl')" and "level_ok sl"
  shows "level_ok sl'"
  using assms
  by (auto simp: delete_sl_def bind_eq_Some_conv split: option.splits if_splits prod.splits
      dest: deleteNode_level_ok)

lemma createSkiplist_level_ok: "level_ok createSkiplist"
  by (simp add: level_ok_def createSkiplist_def ht_def fw_def SKIPLIST_MAXLEVEL_def)

lemma reachable_level_ok: "reachable z \<Longrightarrow> level_ok (zsl z)"
proof (induction rule: reachable.induct)
  case reachable_new
  show ?case by (simp add: NewZSet_def createSkiplist_level_ok)
next
  case (reachable_Add z e sc coins b z')
  then show ?case
    by (auto simp: Add_def bind_eq_Some_conv split: option.splits if_splits
        dest: insert_sl_level_ok delete_sl_level_ok)
next
  case (reachable_Remove z e b z')
  then show ?case
    by (auto simp: Remove_def bind_eq_Some_conv split: option.splits if_splits
        dest: delete_sl_level_ok)
qed

lemma completed:
  "\<not> Option.is_none r \<Longrightarrow> r = Some (fst (the r), snd (the r))"
  by (cases r) auto

definition f64_1 :: float64 where "f64_1 = 0x3FF0000000000000"
definition f64_2 :: float64 where "f64_2 = 0x4000000000000000"
definition f64_3 :: float64 where "f64_3 = 0x4008000000000000"
definition f64_NaN :: float64 where "f64_NaN = 0x7FF8000000000000"

definition tails_only :: "nat \<Rightarrow> bool" where "tails_only k = False"
definition one_head :: "nat \<Rightarrow> bool" where "one_head k = (k < 1)"
definition two_heads :: "nat \<Rightarrow> bool" where "two_heads k = (k < 2)"

text \<open>
  C7. The claim: in every reachable state the \<open>level\<close> field is the highest level at
  which the header has a forward pointer, the empty set included. In the empty set the
  header has no forward pointer at all and \<open>level\<close> is 1.
\<close>

theorem level_field_empty_counterexample:
  "reachable NewZSet \<and> level_sl (zsl NewZSet) \<noteq> top_level (zsl NewZSet)"
proof
  show "reachable NewZSet" by (rule reachable_new)
  show "level_sl (zsl NewZSet) \<noteq> top_level (zsl NewZSet)"
    by (simp add: NewZSet_def createSkiplist_def top_level_def SKIPLIST_MAXLEVEL_def)
qed

text \<open>
  C7, amended. In every state reachable from the empty set by completed \<open>Add\<close> and
  \<open>Remove\<close> operations, \<open>level\<close> is the highest level at which the header has a
  forward pointer, or 1 when it has none.
\<close>

theorem level_field_consistent:
  "reachable z \<Longrightarrow> level_sl (zsl z) = max 1 (top_level (zsl z))"
  by (rule level_ok_top_level) (rule reachable_level_ok)

theorem level_field_consistent_witness:
  "level_sl (zsl (snd (the (Add NewZSet ''a'' f64_1 two_heads)))) = 3 \<and>
   top_level (zsl (snd (the (Add NewZSet ''a'' f64_1 two_heads)))) = 3"
proof -
  have "\<not> Option.is_none (Add NewZSet ''a'' f64_1 two_heads)"
    by code_simp
  then have r: "reachable (snd (the (Add NewZSet ''a'' f64_1 two_heads)))"
    by (rule reachable_Add [OF reachable_new completed])
  have l: "level_sl (zsl (snd (the (Add NewZSet ''a'' f64_1 two_heads)))) = 3"
    by code_simp
  from level_field_consistent [OF r] l show ?thesis by simp
qed

subsection \<open>The shape of a well-formed skiplist\<close>

text \<open>
  \<open>ns\<close> lists the nodes of the level-0 chain in order. The level entry \<open>i\<close> of
  a node is determined by the nodes after it: its forward pointer is the first of
  them that has level \<open>i\<close>, and its span is the number of steps to that node (to
  the end of the chain when there is none).
\<close>

definition gap :: "('a \<Rightarrow> bool) \<Rightarrow> 'a list \<Rightarrow> int" where
  "gap T post =
     (case find T post of
        None \<Rightarrow> int (length post)
      | Some b \<Rightarrow> 1 + int (length (takeWhile (\<lambda>a. \<not> T a) post)))"

definition tall :: "skiplist \<Rightarrow> nat \<Rightarrow> addr \<Rightarrow> bool" where
  "tall sl i a \<longleftrightarrow> i < ht sl a"

definition cell_ok :: "skiplist \<Rightarrow> addr \<Rightarrow> nat \<Rightarrow> addr list \<Rightarrow> bool" where
  "cell_ok sl a i post \<longleftrightarrow>
     fw sl a i = find (tall sl i) post \<and> sp sl a i = gap (tall sl i) post"

fun cells_from :: "skiplist \<Rightarrow> addr list \<Rightarrow> addr list \<Rightarrow> bool" where
  "cells_from sl [] post = True"
| "cells_from sl (a # as) post =
     ((\<forall>i < ht sl a. cell_ok sl a i (as @ post)) \<and> cells_from sl as post)"

lemma find_short: "\<forall>a\<in>set M. \<not> T a \<Longrightarrow> find T (M @ Z) = find T Z"
  by (induction M) auto

lemma gap_short: "\<forall>a\<in>set M. \<not> T a \<Longrightarrow> gap T (M @ Z) = int (length M) + gap T Z"
  by (induction M) (auto simp: gap_def find_short split: option.splits)

lemma find_tall: "\<exists>a\<in>set M. T a \<Longrightarrow> find T (M @ Z) = find T M"
  by (induction M) auto

lemma gap_tall: "\<exists>a\<in>set M. T a \<Longrightarrow> gap T (M @ Z) = gap T M"
proof -
  assume a: "\<exists>a\<in>set M. T a"
  then obtain b where "find T M = Some b" by (cases "find T M") (auto simp: find_None_iff)
  moreover from a have "takeWhile (\<lambda>a. \<not> T a) (M @ Z) = takeWhile (\<lambda>a. \<not> T a) M"
    by (induction M) auto
  ultimately show ?thesis using a by (simp add: gap_def find_tall)
qed

lemma gap_Cons_tall [simp]: "T a \<Longrightarrow> gap T (a # Z) = 1"
  by (simp add: gap_def)

lemma gap_Cons_short [simp]: "\<not> T a \<Longrightarrow> gap T (a # Z) = 1 + gap T Z"
  using gap_short [of "[a]" T Z] by simp

lemma gap_Nil [simp]: "gap T [] = 0"
  by (simp add: gap_def)

lemma gap_nonneg: "0 \<le> gap T xs"
  by (simp add: gap_def split: option.splits)

lemma find_cong_set: "\<forall>a\<in>set xs. T a = T' a \<Longrightarrow> find T xs = find T' xs"
  by (induction xs) auto

lemma gap_cong_set: "\<forall>a\<in>set xs. T a = T' a \<Longrightarrow> gap T xs = gap T' xs"
proof -
  assume a: "\<forall>a\<in>set xs. T a = T' a"
  then have "takeWhile (\<lambda>a. \<not> T a) xs = takeWhile (\<lambda>a. \<not> T' a) xs"
    by (induction xs) auto
  with a show ?thesis by (simp add: gap_def find_cong_set [of xs T T'] split: option.splits)
qed

lemma cells_from_append:
  "cells_from sl (xs @ ys) post \<longleftrightarrow> cells_from sl xs (ys @ post) \<and> cells_from sl ys post"
  by (induction xs) auto

lemma cells_from_split:
  "cells_from sl (P @ a # M) post \<Longrightarrow> i < ht sl a \<Longrightarrow> cell_ok sl a i (M @ post)"
  by (simp add: cells_from_append)

lemma cell_ok_cong:
  assumes "fw s' a i = fw s a i" "sp s' a i = sp s a i" "\<forall>b\<in>set post. ht s' b = ht s b"
  shows "cell_ok s' a i post = cell_ok s a i post"
proof -
  from assms(3) have "\<forall>b\<in>set post. tall s' i b = tall s i b" by (simp add: tall_def)
  from find_cong_set [OF this] gap_cong_set [OF this] assms(1,2)
  show ?thesis by (simp add: cell_ok_def)
qed

lemma cells_from_cong:
  assumes "\<forall>a\<in>set xs. \<forall>i. fw s' a i = fw s a i \<and> sp s' a i = sp s a i"
    and "\<forall>b\<in>set (xs @ post). ht s' b = ht s b"
  shows "cells_from s' xs post = cells_from s xs post"
  using assms
proof (induction xs)
  case Nil
  then show ?case by simp
next
  case (Cons a xs)
  have "cell_ok s' a i (xs @ post) = cell_ok s a i (xs @ post)" for i
    using Cons.prems by (intro cell_ok_cong) auto
  moreover have "ht s' a = ht s a" using Cons.prems by simp
  moreover have "cells_from s' xs post = cells_from s xs post"
    using Cons.prems by (intro Cons.IH) auto
  ultimately show ?case by simp
qed

definition hdr_ok :: "skiplist \<Rightarrow> addr list \<Rightarrow> bool" where
  "hdr_ok sl ns \<longleftrightarrow>
     (\<forall>i < level_sl sl. cell_ok sl (header sl) i ns) \<and>
     (\<forall>i. level_sl sl \<le> i \<and> i < SKIPLIST_MAXLEVEL \<longrightarrow> fw sl (header sl) i = None)"

definition sl_shape :: "skiplist \<Rightarrow> addr list \<Rightarrow> bool" where
  "sl_shape sl ns \<longleftrightarrow>
     header sl < length (store sl) \<and> ht sl (header sl) = SKIPLIST_MAXLEVEL \<and>
     header sl \<notin> set ns \<and> distinct ns \<and>
     (\<forall>a\<in>set ns. a < length (store sl) \<and> 1 \<le> ht sl a \<and> ht sl a \<le> level_sl sl) \<and>
     1 \<le> level_sl sl \<and> level_sl sl \<le> SKIPLIST_MAXLEVEL \<and>
     length_sl sl = int (length ns) \<and> cells_from sl ns [] \<and> hdr_ok sl ns"

text \<open>
  \<open>is_pred sl i A u r\<close>: among the header and the nodes \<open>A\<close>, \<open>u\<close> is the last one
  with level \<open>i\<close>, and \<open>r\<close> is its rank (0 for the header).
\<close>

definition is_pred :: "skiplist \<Rightarrow> nat \<Rightarrow> addr list \<Rightarrow> addr \<Rightarrow> int \<Rightarrow> bool" where
  "is_pred sl i A u r \<longleftrightarrow>
     (u = header sl \<and> r = 0 \<and> (\<forall>a\<in>set A. \<not> tall sl i a)) \<or>
     (\<exists>P M. A = P @ u # M \<and> tall sl i u \<and> (\<forall>a\<in>set M. \<not> tall sl i a) \<and>
        r = int (length P) + 1)"

lemma is_pred_Nil [simp]: "is_pred sl i [] u r \<longleftrightarrow> u = header sl \<and> r = 0"
  by (auto simp: is_pred_def)

lemma is_pred_snoc_short:
  "is_pred sl i A u r \<Longrightarrow> \<not> tall sl i a \<Longrightarrow> is_pred sl i (A @ [a]) u r"
  unfolding is_pred_def
proof (elim disjE exE conjE)
  fix P M
  assume "A = P @ u # M" "tall sl i u" "\<forall>a\<in>set M. \<not> tall sl i a" "r = int (length P) + 1"
    "\<not> tall sl i a"
  then have "A @ [a] = P @ u # (M @ [a]) \<and> tall sl i u \<and> (\<forall>a\<in>set (M @ [a]). \<not> tall sl i a) \<and>
     r = int (length P) + 1" by simp
  then show "(u = header sl \<and> r = 0 \<and> (\<forall>a\<in>set (A @ [a]). \<not> tall sl i a)) \<or>
    (\<exists>P M. A @ [a] = P @ u # M \<and> tall sl i u \<and> (\<forall>a\<in>set M. \<not> tall sl i a) \<and> r = int (length P) + 1)"
    by blast
qed auto

lemma is_pred_snoc_tall:
  "tall sl i a \<Longrightarrow> is_pred sl i (A @ [a]) a (int (length A) + 1)"
  unfolding is_pred_def by (intro disjI2 exI [of _ A] exI [of _ "[]"]) simp

lemma is_pred_short_suffix:
  "is_pred sl i A u r \<Longrightarrow> \<forall>a\<in>set M. \<not> tall sl i a \<Longrightarrow> is_pred sl i (A @ M) u r"
proof (induction M arbitrary: A)
  case Nil
  then show ?case by simp
next
  case (Cons a M)
  from Cons.prems have "is_pred sl i (A @ [a]) u r" by (intro is_pred_snoc_short) auto
  from Cons.IH [OF this] Cons.prems(2) show ?case by simp
qed

lemma pred_cell:
  assumes wf: "sl_shape sl (A @ Z)" and i: "i < level_sl sl" and p: "is_pred sl i A u r"
  shows "u < length (store sl) \<and> i < ht sl u \<and> fw sl u i = find (tall sl i) Z \<and>
    sp sl u i = int (length A) - r + gap (tall sl i) Z"
  using p unfolding is_pred_def
proof (elim disjE exE conjE)
  assume u: "u = header sl" "r = 0" "\<forall>a\<in>set A. \<not> tall sl i a"
  from wf i have "cell_ok sl (header sl) i (A @ Z)" by (simp add: sl_shape_def hdr_ok_def)
  with u wf i show ?thesis
    by (simp add: cell_ok_def find_short gap_short sl_shape_def)
next
  fix P M
  assume u: "A = P @ u # M" "tall sl i u" "\<forall>a\<in>set M. \<not> tall sl i a" "r = int (length P) + 1"
  from wf u(1) have "cells_from sl (P @ u # (M @ Z)) []" by (simp add: sl_shape_def)
  from cells_from_split [OF this] u(2) have "cell_ok sl u i (M @ Z)" by (simp add: tall_def)
  with u wf show ?thesis
    by (simp add: cell_ok_def find_short gap_short sl_shape_def tall_def)
qed

lemma advance_step:
  "a < length (store sl) \<Longrightarrow> i < ht sl a \<Longrightarrow>
   advance sl i go a acc =
     (case fw sl a i of
        None \<Rightarrow> Some (a, acc)
      | Some y \<Rightarrow>
          if y < length (store sl) then
            if go (level (store sl ! a) ! i) (store sl ! y) acc
            then advance sl i go y (acc + sp sl a i) else Some (a, acc)
          else None)"
  by (subst advance.simps) (auto simp: lev_def node_def idx_def ht_def fw_def sp_def split: option.splits)

lemma find_gap_nth:
  "find T B = Some b \<Longrightarrow> \<exists>k < length B. b = B ! k \<and> gap T B = int k + 1"
proof (induction B)
  case Nil
  then show ?case by simp
next
  case (Cons a B)
  show ?case
  proof (cases "T a")
    case True
    with Cons.prems show ?thesis by (intro exI [of _ 0]) simp
  next
    case False
    with Cons.prems have "find T B = Some b" by simp
    from Cons.IH [OF this] obtain k where "k < length B" "b = B ! k" "gap T B = int k + 1" by blast
    with False show ?thesis by (intro exI [of _ "Suc k"]) simp
  qed
qed

lemma advance_pred:
  assumes wf: "sl_shape sl (A1 @ A2 @ B)" and i: "i < level_sl sl"
    and p: "is_pred sl i A1 cur acc"
    and go: "\<And>l n a. go l n a = Q n (a + span l)"
    and pass: "\<forall>k < length A2. Q (store sl ! (A2 ! k)) (int (length A1) + int k + 1)"
    and fail: "\<forall>k < length B. \<not> Q (store sl ! (B ! k)) (int (length A1 + length A2) + int k + 1)"
  shows "\<exists>u r. advance sl i go cur acc = Some (u, r) \<and> is_pred sl i (A1 @ A2) u r"
  using wf p pass fail
proof (induction A2 arbitrary: A1 cur acc)
  case Nil
  from pred_cell [OF _ i Nil.prems(2), of B] Nil.prems(1)
  have c: "cur < length (store sl)" "i < ht sl cur" "fw sl cur i = find (tall sl i) B"
    "sp sl cur i = int (length A1) - acc + gap (tall sl i) B" by simp_all
  have "advance sl i go cur acc = Some (cur, acc)"
  proof (cases "find (tall sl i) B")
    case None
    with c show ?thesis by (simp add: advance_step)
  next
    case (Some b)
    from find_gap_nth [OF this] obtain k where k: "k < length B" "b = B ! k"
      "gap (tall sl i) B = int k + 1" by blast
    with Nil.prems(4) have "\<not> Q (store sl ! b) (int (length A1) + int k + 1)" by simp
    moreover have "sp sl cur i = span (level (store sl ! cur) ! i)" by (simp add: sp_def)
    ultimately have "\<not> go (level (store sl ! cur) ! i) (store sl ! b) acc"
      using c(4) k(3) by (simp add: go algebra_simps)
    moreover from k Nil.prems(1) have "b < length (store sl)" by (simp add: sl_shape_def)
    ultimately show ?thesis using c Some by (simp add: advance_step)
  qed
  with Nil.prems(2) show ?case by simp
next
  case (Cons a A2)
  have wf': "sl_shape sl ((A1 @ [a]) @ A2 @ B)" using Cons.prems(1) by simp
  have pass': "\<forall>k<length A2. Q (store sl ! (A2 ! k)) (int (length (A1 @ [a])) + int k + 1)"
  proof (intro allI impI)
    fix k assume "k < length A2"
    with Cons.prems(3) have "Q (store sl ! ((a # A2) ! Suc k)) (int (length A1) + int (Suc k) + 1)"
      by (metis Suc_less_eq length_Cons)
    then show "Q (store sl ! (A2 ! k)) (int (length (A1 @ [a])) + int k + 1)"
      by (simp add: algebra_simps)
  qed
  have fail': "\<forall>k<length B. \<not> Q (store sl ! (B ! k)) (int (length (A1 @ [a]) + length A2) + int k + 1)"
    using Cons.prems(4) by simp
  show ?case
  proof (cases "tall sl i a")
    case False
    from is_pred_snoc_short [OF Cons.prems(2) False]
    have "is_pred sl i (A1 @ [a]) cur acc" .
    from Cons.IH [OF wf' this pass' fail'] show ?thesis by simp
  next
    case True
    from pred_cell [OF _ i Cons.prems(2), of "a # A2 @ B"] Cons.prems(1) True
    have c: "cur < length (store sl)" "i < ht sl cur" "fw sl cur i = Some a"
      "sp sl cur i = int (length A1) - acc + 1" by simp_all
    from Cons.prems(1) have av: "a < length (store sl)" by (simp add: sl_shape_def)
    from Cons.prems(3) have "Q (store sl ! a) (int (length A1) + 1)" by auto
    moreover have "sp sl cur i = span (level (store sl ! cur) ! i)" by (simp add: sp_def)
    ultimately have "go (level (store sl ! cur) ! i) (store sl ! a) acc"
      using c(4) by (simp add: go algebra_simps)
    with c av have "advance sl i go cur acc = advance sl i go a (int (length A1) + 1)"
      by (simp add: advance_step)
    moreover from Cons.IH [OF wf' is_pred_snoc_tall [OF True] pass' fail']
    obtain u r where "advance sl i go a (int (length A1) + 1) = Some (u, r)"
      "is_pred sl i ((A1 @ [a]) @ A2) u r" by blast
    ultimately show ?thesis by simp
  qed
qed

lemma is_pred_down:
  assumes "is_pred sl (Suc i) A u r"
  shows "\<exists>A1 A2. A = A1 @ A2 \<and> is_pred sl i A1 u r \<and> r = int (length A1)"
proof -
  from assms consider "u = header sl" "r = 0"
    | P M where "A = P @ u # M" "tall sl (Suc i) u" "r = int (length P) + 1"
    unfolding is_pred_def by blast
  then show ?thesis
  proof cases
    case 1
    then have "A = [] @ A \<and> is_pred sl i [] u r \<and> r = int (length ([]::addr list))" by simp
    then show ?thesis by blast
  next
    case 2
    then have "tall sl i u" by (simp add: tall_def)
    from is_pred_snoc_tall [OF this, of P] 2
    have "A = (P @ [u]) @ M \<and> is_pred sl i (P @ [u]) u r \<and> r = int (length (P @ [u]))" by simp
    then show ?thesis by blast
  qed
qed

lemma descend_step:
  assumes wf: "sl_shape sl (A @ B)" and i: "i < level_sl sl"
    and start: "(Suc i = level_sl sl \<and> cur = header sl \<and> acc = 0) \<or> is_pred sl (Suc i) A cur acc"
    and go: "\<And>l n a. go l n a = Q n (a + span l)"
    and pass: "\<forall>k < length A. Q (store sl ! (A ! k)) (int k + 1)"
    and fail: "\<forall>k < length B. \<not> Q (store sl ! (B ! k)) (int (length A) + int k + 1)"
  shows "\<exists>u r. advance sl i go cur acc = Some (u, r) \<and> is_pred sl i A u r"
proof -
  from start obtain A1 A2 where s: "A = A1 @ A2" "is_pred sl i A1 cur acc" "acc = int (length A1)"
  proof
    assume "Suc i = level_sl sl \<and> cur = header sl \<and> acc = 0"
    then have "A = [] @ A" "is_pred sl i [] cur acc" "acc = int (length ([]::addr list))" by simp_all
    then show ?thesis by (rule that)
  next
    assume "is_pred sl (Suc i) A cur acc"
    from is_pred_down [OF this] that show ?thesis by blast
  qed
  have wf': "sl_shape sl (A1 @ A2 @ B)" using wf s(1) by simp
  have pass': "\<forall>k < length A2. Q (store sl ! (A2 ! k)) (int (length A1) + int k + 1)"
  proof (intro allI impI)
    fix k assume "k < length A2"
    then have "length A1 + k < length A" using s(1) by simp
    with pass have "Q (store sl ! (A ! (length A1 + k))) (int (length A1 + k) + 1)" by blast
    with s(1) show "Q (store sl ! (A2 ! k)) (int (length A1) + int k + 1)" by (simp add: nth_append)
  qed
  have fail': "\<forall>k < length B. \<not> Q (store sl ! (B ! k)) (int (length A1 + length A2) + int k + 1)"
    using fail s(1) by simp
  from advance_pred [OF wf' i s(2) go pass' fail'] s(1) show ?thesis by simp
qed

definition key_before :: "float64 \<Rightarrow> string \<Rightarrow> skiplistNode \<Rightarrow> bool" where
  "key_before sc e n \<longleftrightarrow> f_lt (score n) sc \<or> (f_eq (score n) sc \<and> ele n < e)"

lemma insert_find_loop:
  assumes wf: "sl_shape sl (A @ B)" and n: "n \<le> level_sl sl"
    and len: "length u = SKIPLIST_MAXLEVEL" "length r = SKIPLIST_MAXLEVEL"
    and start: "(n = level_sl sl \<and> x = header sl) \<or> (n < level_sl sl \<and> is_pred sl n A x (r ! n))"
    and pass: "\<forall>a\<in>set A. key_before sc e (store sl ! a)"
    and fail: "\<forall>b\<in>set B. \<not> key_before sc e (store sl ! b)"
  shows "\<exists>x' u' r'. forM (rev [0..<n]) (insert_find sl sc e) (x, u, r) = Some (x', u', r') \<and>
    length u' = SKIPLIST_MAXLEVEL \<and> length r' = SKIPLIST_MAXLEVEL \<and>
    (\<forall>j<n. \<exists>a. u' ! j = Some a \<and> is_pred sl j A a (r' ! j)) \<and>
    (\<forall>j\<ge>n. u' ! j = u ! j \<and> r' ! j = r ! j)"
  using n len start
proof (induction n arbitrary: x u r)
  case 0
  then show ?case by simp
next
  case (Suc n)
  let ?r0 = "if n + 1 = level_sl sl then 0 else r ! (n + 1)"
  have nl: "n < level_sl sl" "n < SKIPLIST_MAXLEVEL" "Suc n \<le> SKIPLIST_MAXLEVEL"
    using Suc.prems(1) wf by (auto simp: sl_shape_def)
  have st: "(Suc n = level_sl sl \<and> x = header sl \<and> ?r0 = 0) \<or> is_pred sl (Suc n) A x ?r0"
    using Suc.prems(4) by auto
  have go: "\<And>l m a. key_lt sc e l m a = (\<lambda>m p. key_before sc e m) m (a + span l)"
    by (simp add: key_lt_def key_before_def)
  have "\<exists>x1 r1. advance sl n (key_lt sc e) x ?r0 = Some (x1, r1) \<and> is_pred sl n A x1 r1"
    by (rule descend_step [OF wf nl(1) st go]) (use pass fail in auto)
  then obtain x1 r1 where adv: "advance sl n (key_lt sc e) x ?r0 = Some (x1, r1)"
    and p1: "is_pred sl n A x1 r1" by blast
  have r0ok: "n + 1 \<noteq> level_sl sl \<longrightarrow> n + 1 < length r"
    using Suc.prems(1,3) wf by (auto simp: sl_shape_def)
  have step: "insert_find sl sc e n (x, u, r) = Some (x1, u[n := Some x1], r[n := r1])"
    using adv nl Suc.prems(2,3) r0ok
    by (auto simp: insert_find_def bind_eq_Some_conv upd_def idx_def)
  have "\<exists>x' u' r'. forM (rev [0..<n]) (insert_find sl sc e) (x1, u[n := Some x1], r[n := r1]) = Some (x', u', r') \<and>
    length u' = SKIPLIST_MAXLEVEL \<and> length r' = SKIPLIST_MAXLEVEL \<and>
    (\<forall>j<n. \<exists>a. u' ! j = Some a \<and> is_pred sl j A a (r' ! j)) \<and>
    (\<forall>j\<ge>n. u' ! j = u[n := Some x1] ! j \<and> r' ! j = r[n := r1] ! j)"
    by (rule Suc.IH) (use nl Suc.prems p1 in auto)
  then obtain x' u' r' where
    res: "forM (rev [0..<n]) (insert_find sl sc e) (x1, u[n := Some x1], r[n := r1]) = Some (x', u', r')"
      "length u' = SKIPLIST_MAXLEVEL" "length r' = SKIPLIST_MAXLEVEL"
      "\<forall>j<n. \<exists>a. u' ! j = Some a \<and> is_pred sl j A a (r' ! j)"
      "\<forall>j\<ge>n. u' ! j = u[n := Some x1] ! j \<and> r' ! j = r[n := r1] ! j"
    by blast
  have "forM (rev [0..<Suc n]) (insert_find sl sc e) (x, u, r) = Some (x', u', r')"
    using step res(1) by simp
  moreover have "\<forall>j<Suc n. \<exists>a. u' ! j = Some a \<and> is_pred sl j A a (r' ! j)"
    using res(4,5) p1 nl Suc.prems(2,3) by (auto simp: less_Suc_eq)
  moreover have "\<forall>j\<ge>Suc n. u' ! j = u ! j \<and> r' ! j = r ! j"
    using res(5) by auto
  ultimately show ?case using res(2,3) by blast
qed

lemma insert_splice_step:
  assumes "u ! i = Some a" "a < length (store s)" "i < ht s a" "a \<noteq> x"
    "x < length (store s)" "i < ht s x" "i < length u" "i < length r" "0 < length r"
  shows "\<exists>s'. insert_splice x u r i s = Some s' \<and> same_frame s s' \<and> tail s' = tail s \<and>
    (\<forall>b j. fw s' b j = (if j = i then (if b = x then fw s a i else if b = a then Some x else fw s b j) else fw s b j)) \<and>
    (\<forall>b j. sp s' b j = (if j = i then (if b = x then sp s a i - (r ! 0 - r ! i)
        else if b = a then r ! 0 - r ! i + 1 else sp s b j) else sp s b j))"
  using assms
  by (auto simp: insert_splice_def bind_eq_Some_conv same_frame_def fw_def [symmetric] sp_def [symmetric])

lemma insert_splice_loop:
  assumes "\<forall>j\<in>set xs. \<exists>a. u ! j = Some a \<and> a < length (store s) \<and> j < ht s a \<and> a \<noteq> x"
    and "x < length (store s)" "\<forall>j\<in>set xs. j < ht s x \<and> j < length u \<and> j < length r"
    and "0 < length r" "distinct xs"
  shows "\<exists>s'. forM xs (insert_splice x u r) s = Some s' \<and> same_frame s s' \<and> tail s' = tail s \<and>
    (\<forall>b j. fw s' b j = (if j \<in> set xs then (if b = x then fw s (the (u ! j)) j
        else if u ! j = Some b then Some x else fw s b j) else fw s b j)) \<and>
    (\<forall>b j. sp s' b j = (if j \<in> set xs then (if b = x then sp s (the (u ! j)) j - (r ! 0 - r ! j)
        else if u ! j = Some b then r ! 0 - r ! j + 1 else sp s b j) else sp s b j))"
  using assms
proof (induction xs arbitrary: s)
  case Nil
  then show ?case by simp
next
  case (Cons i xs)
  from Cons.prems(1) obtain a where a: "u ! i = Some a" "a < length (store s)" "i < ht s a" "a \<noteq> x"
    by auto
  from insert_splice_step [OF a Cons.prems(2), of r] Cons.prems(3,4)
  obtain s1 where s1: "insert_splice x u r i s = Some s1" "same_frame s s1" "tail s1 = tail s"
    "\<forall>b j. fw s1 b j = (if j = i then (if b = x then fw s a i else if b = a then Some x else fw s b j) else fw s b j)"
    "\<forall>b j. sp s1 b j = (if j = i then (if b = x then sp s a i - (r ! 0 - r ! i)
        else if b = a then r ! 0 - r ! i + 1 else sp s b j) else sp s b j)"
    by auto
  have "\<exists>s'. forM xs (insert_splice x u r) s1 = Some s' \<and> same_frame s1 s' \<and> tail s' = tail s1 \<and>
    (\<forall>b j. fw s' b j = (if j \<in> set xs then (if b = x then fw s1 (the (u ! j)) j
        else if u ! j = Some b then Some x else fw s1 b j) else fw s1 b j)) \<and>
    (\<forall>b j. sp s' b j = (if j \<in> set xs then (if b = x then sp s1 (the (u ! j)) j - (r ! 0 - r ! j)
        else if u ! j = Some b then r ! 0 - r ! j + 1 else sp s1 b j) else sp s1 b j))"
    using Cons.prems s1(2) by (intro Cons.IH) (auto simp: same_frame_def)
  then obtain s' where s': "forM xs (insert_splice x u r) s1 = Some s'" "same_frame s1 s'" "tail s' = tail s1"
    "\<forall>b j. fw s' b j = (if j \<in> set xs then (if b = x then fw s1 (the (u ! j)) j
        else if u ! j = Some b then Some x else fw s1 b j) else fw s1 b j)"
    "\<forall>b j. sp s' b j = (if j \<in> set xs then (if b = x then sp s1 (the (u ! j)) j - (r ! 0 - r ! j)
        else if u ! j = Some b then r ! 0 - r ! j + 1 else sp s1 b j) else sp s1 b j)"
    by blast
  have ni: "i \<notin> set xs" using Cons.prems(5) by simp
  have "forM (i # xs) (insert_splice x u r) s = Some s'" using s1(1) s'(1) by simp
  moreover have "same_frame s s'" using s1(2) s'(2) by (rule same_frame_trans)
  moreover have "tail s' = tail s" using s1(3) s'(3) by simp
  moreover have "\<forall>b j. fw s' b j = (if j \<in> set (i # xs) then (if b = x then fw s (the (u ! j)) j
        else if u ! j = Some b then Some x else fw s b j) else fw s b j)"
    using s'(4) s1(4) ni a by auto
  moreover have "\<forall>b j. sp s' b j = (if j \<in> set (i # xs) then (if b = x then sp s (the (u ! j)) j - (r ! 0 - r ! j)
        else if u ! j = Some b then r ! 0 - r ! j + 1 else sp s b j) else sp s b j)"
    using s'(5) s1(5) ni a by auto
  ultimately show ?case by blast
qed

lemma insert_bump_loop:
  assumes "\<forall>j\<in>set xs. \<exists>a. u ! j = Some a \<and> a < length (store s) \<and> j < ht s a \<and> j < length u"
    and "distinct xs"
  shows "\<exists>s'. forM xs (insert_bump u) s = Some s' \<and> same_frame s s' \<and> tail s' = tail s \<and>
    fw s' = fw s \<and>
    (\<forall>b j. sp s' b j = (if j \<in> set xs \<and> u ! j = Some b then sp s b j + 1 else sp s b j))"
  using assms
proof (induction xs arbitrary: s)
  case Nil
  then show ?case by simp
next
  case (Cons i xs)
  from Cons.prems(1) obtain a where a: "u ! i = Some a" "a < length (store s)" "i < ht s a" "i < length u"
    by auto
  let ?s1 = "put_sp s a i (sp s a i + 1)"
  have s1: "insert_bump u i s = Some ?s1"
    using a by (auto simp: insert_bump_def bind_eq_Some_conv sp_def)
  have "\<exists>s'. forM xs (insert_bump u) ?s1 = Some s' \<and> same_frame ?s1 s' \<and> tail s' = tail ?s1 \<and>
    fw s' = fw ?s1 \<and>
    (\<forall>b j. sp s' b j = (if j \<in> set xs \<and> u ! j = Some b then sp ?s1 b j + 1 else sp ?s1 b j))"
    using Cons.prems by (intro Cons.IH) auto
  then obtain s' where s': "forM xs (insert_bump u) ?s1 = Some s'" "same_frame ?s1 s'" "tail s' = tail ?s1"
    "fw s' = fw ?s1"
    "\<forall>b j. sp s' b j = (if j \<in> set xs \<and> u ! j = Some b then sp ?s1 b j + 1 else sp ?s1 b j)"
    by blast
  have ni: "i \<notin> set xs" using Cons.prems(2) by simp
  have "forM (i # xs) (insert_bump u) s = Some s'" using s1 s'(1) by simp
  moreover have "same_frame s s'" by (rule same_frame_trans [OF same_frame_put(2) s'(2)])
  moreover have "tail s' = tail s" using s'(3) by simp
  moreover have "fw s' = fw s" using s'(4) by (simp add: fun_eq_iff)
  moreover have "\<forall>b j. sp s' b j = (if j \<in> set (i # xs) \<and> u ! j = Some b then sp s b j + 1 else sp s b j)"
    using s'(5) ni a by auto
  ultimately show ?case by blast
qed

lemma insert_raise_loop_total:
  assumes "\<forall>j\<in>set xs. j < length u \<and> j < length r \<and> j < ht s (header s)"
    and "header s < length (store s)"
  shows "\<exists>u' r' s'. forM xs insert_raise (u, r, s) = Some (u', r', s') \<and>
    same_frame s s' \<and> tail s' = tail s \<and> fw s' = fw s \<and> length u' = length u \<and> length r' = length r \<and>
    (\<forall>j. u' ! j = (if j \<in> set xs then Some (header s) else u ! j)) \<and>
    (\<forall>j. r' ! j = (if j \<in> set xs then 0 else r ! j)) \<and>
    (\<forall>b j. sp s' b j = (if j \<in> set xs \<and> b = header s then length_sl s else sp s b j))"
  using assms
proof (induction xs arbitrary: u r s)
  case Nil
  then show ?case by simp
next
  case (Cons i xs)
  let ?s1 = "put_sp s (header s) i (length_sl s)"
  have s1: "insert_raise i (u, r, s) = Some (u[i := Some (header s)], r[i := 0], ?s1)"
    using Cons.prems by (auto simp: insert_raise_def bind_eq_Some_conv)
  have "\<exists>u' r' s'. forM xs insert_raise (u[i := Some (header s)], r[i := 0], ?s1) = Some (u', r', s') \<and>
    same_frame ?s1 s' \<and> tail s' = tail ?s1 \<and> fw s' = fw ?s1 \<and>
    length u' = length (u[i := Some (header s)]) \<and> length r' = length (r[i := 0]) \<and>
    (\<forall>j. u' ! j = (if j \<in> set xs then Some (header ?s1) else u[i := Some (header s)] ! j)) \<and>
    (\<forall>j. r' ! j = (if j \<in> set xs then 0 else r[i := 0] ! j)) \<and>
    (\<forall>b j. sp s' b j = (if j \<in> set xs \<and> b = header ?s1 then length_sl ?s1 else sp ?s1 b j))"
    using Cons.prems by (intro Cons.IH) auto
  then obtain u' r' s' where s': "forM xs insert_raise (u[i := Some (header s)], r[i := 0], ?s1) = Some (u', r', s')"
    "same_frame ?s1 s'" "tail s' = tail ?s1" "fw s' = fw ?s1"
    "length u' = length u" "length r' = length r"
    "\<forall>j. u' ! j = (if j \<in> set xs then Some (header s) else u[i := Some (header s)] ! j)"
    "\<forall>j. r' ! j = (if j \<in> set xs then 0 else r[i := 0] ! j)"
    "\<forall>b j. sp s' b j = (if j \<in> set xs \<and> b = header s then length_sl s else sp ?s1 b j)"
    by auto
  have "forM (i # xs) insert_raise (u, r, s) = Some (u', r', s')" using s1 s'(1) by simp
  moreover have "same_frame s s'" by (rule same_frame_trans [OF same_frame_put(2) s'(2)])
  moreover have "tail s' = tail s" using s'(3) by simp
  moreover have "fw s' = fw s" using s'(4) by (simp add: fun_eq_iff)
  moreover have "\<forall>j. u' ! j = (if j \<in> set (i # xs) then Some (header s) else u ! j)"
    using s'(7) Cons.prems(1) by (auto simp: nth_list_update)
  moreover have "\<forall>j. r' ! j = (if j \<in> set (i # xs) then 0 else r ! j)"
    using s'(8) Cons.prems(1) by (auto simp: nth_list_update)
  moreover have "\<forall>b j. sp s' b j = (if j \<in> set (i # xs) \<and> b = header s then length_sl s else sp s b j)"
    using s'(9) Cons.prems by auto
  ultimately show ?case using s'(5,6) by blast
qed

lemma is_pred_mem: "is_pred sl j A u r \<Longrightarrow> u = header sl \<or> u \<in> set A"
  by (auto simp: is_pred_def)

lemma is_pred_hdr:
  "is_pred sl j A u r \<Longrightarrow> \<forall>b\<in>set A. \<not> tall sl j b \<Longrightarrow> u = header sl \<and> r = 0"
  by (auto simp: is_pred_def)

lemma is_pred_not_hdr:
  "is_pred sl j A u r \<Longrightarrow> \<exists>b\<in>set A. tall sl j b \<Longrightarrow> header sl \<notin> set A \<Longrightarrow> u \<noteq> header sl"
  by (auto simp: is_pred_def)

lemma is_pred_split:
  assumes "is_pred sl j A u r" "distinct A" "A = P @ a # M" "tall sl j a" "\<forall>b\<in>set M. \<not> tall sl j b"
  shows "u = a \<and> r = int (length P) + 1"
proof -
  from assms(1,3,4) obtain P' M' where 1: "A = P' @ u # M'" "tall sl j u"
    "\<forall>b\<in>set M'. \<not> tall sl j b" "r = int (length P') + 1"
    unfolding is_pred_def by auto
  have "filter (tall sl j) A = filter (tall sl j) P @ [a]" using assms(3,4,5) by simp
  moreover have "filter (tall sl j) A = filter (tall sl j) P' @ [u]" using 1 by simp
  ultimately have ua: "u = a" by simp
  from assms(2,3) have "a \<notin> set P" "a \<notin> set M" by auto
  with assms(3) 1(1) ua have "P = P'" by (metis append_Cons_eq_iff)
  with ua 1(4) show ?thesis by simp
qed

lemma is_pred_not:
  assumes "is_pred sl j A u r" "distinct A" "header sl \<notin> set A" "A = P @ a # M"
    "\<exists>b\<in>set M. tall sl j b"
  shows "u \<noteq> a"
proof
  assume ua: "u = a"
  with assms(1,3,4) obtain P' M' where 1: "A = P' @ a # M'" "\<forall>b\<in>set M'. \<not> tall sl j b"
    unfolding is_pred_def by auto
  from assms(2,4) have "a \<notin> set P" "a \<notin> set M" by auto
  with assms(4) 1(1) have "M = M'" by (metis append_Cons_eq_iff)
  with 1(2) assms(5) show False by simp
qed

lemma is_pred_0:
  assumes "is_pred sl 0 A u r" "\<forall>a\<in>set A. 1 \<le> ht sl a"
  shows "r = int (length A)"
proof -
  from assms(2) have t: "\<forall>a\<in>set A. tall sl 0 a" by (auto simp: tall_def)
  from assms(1) consider "\<forall>a\<in>set A. \<not> tall sl 0 a" "r = 0"
    | P M where "A = P @ u # M" "\<forall>a\<in>set M. \<not> tall sl 0 a" "r = int (length P) + 1"
    unfolding is_pred_def by blast
  then show ?thesis
  proof cases
    case 1
    with t have "A = []" by (cases A) auto
    with 1 show ?thesis by simp
  next
    case 2
    with t have "M = []" by (cases M) auto
    with 2 show ?thesis by simp
  qed
qed

lemma cells_from_iff:
  "cells_from sl xs post \<longleftrightarrow>
     (\<forall>P a M. xs = P @ a # M \<longrightarrow> (\<forall>i < ht sl a. cell_ok sl a i (M @ post)))"
proof (induction xs)
  case Nil
  then show ?case by simp
next
  case (Cons x xs)
  show ?case
  proof
    assume l: "cells_from sl (x # xs) post"
    show "\<forall>P a M. x # xs = P @ a # M \<longrightarrow> (\<forall>i < ht sl a. cell_ok sl a i (M @ post))"
    proof (intro allI impI)
      fix P a M i assume e: "x # xs = P @ a # M" and i: "i < ht sl a"
      show "cell_ok sl a i (M @ post)"
      proof (cases P)
        case Nil
        with e l i show ?thesis by simp
      next
        case (Cons p P')
        with e have "xs = P' @ a # M" by simp
        with l Cons.IH i show ?thesis by simp
      qed
    qed
  next
    assume r: "\<forall>P a M. x # xs = P @ a # M \<longrightarrow> (\<forall>i < ht sl a. cell_ok sl a i (M @ post))"
    then have "x # xs = [] @ x # xs \<longrightarrow> (\<forall>i < ht sl x. cell_ok sl x i (xs @ post))" by blast
    then have 1: "\<forall>i < ht sl x. cell_ok sl x i (xs @ post)" by simp
    have "\<forall>P a M. xs = P @ a # M \<longrightarrow> (\<forall>i < ht sl a. cell_ok sl a i (M @ post))"
    proof (intro allI impI)
      fix P a M i assume "xs = P @ a # M" "i < ht sl a"
      then have "x # xs = (x # P) @ a # M" by simp
      with r \<open>i < ht sl a\<close> show "cell_ok sl a i (M @ post)" by blast
    qed
    with Cons.IH 1 show "cells_from sl (x # xs) post" by simp
  qed
qed

text \<open>A level entry before the point of insertion, once the new node \<open>x\<close> is in place.\<close>

lemma cell_insert:
  assumes old: "cell_ok s a j (M @ B)"
    and hts: "\<forall>b\<in>set (M @ B). ht s' b = ht s b"
    and cases: "((\<exists>b\<in>set M. tall s j b) \<and> fw s' a j = fw s a j \<and> sp s' a j = sp s a j) \<or>
      ((\<forall>b\<in>set M. \<not> tall s j b) \<and> tall s' j x \<and> fw s' a j = Some x \<and> sp s' a j = int (length M) + 1) \<or>
      ((\<forall>b\<in>set M. \<not> tall s j b) \<and> \<not> tall s' j x \<and> fw s' a j = fw s a j \<and> sp s' a j = sp s a j + 1)"
  shows "cell_ok s' a j (M @ x # B)"
proof -
  from hts have tM: "\<forall>b\<in>set M. tall s' j b = tall s j b" and tB: "\<forall>b\<in>set B. tall s' j b = tall s j b"
    by (auto simp: tall_def)
  note fM = find_cong_set [OF tM] and gM = gap_cong_set [OF tM]
    and fB = find_cong_set [OF tB] and gB = gap_cong_set [OF tB]
  from cases show ?thesis
  proof (elim disjE conjE)
    assume 1: "\<exists>b\<in>set M. tall s j b" "fw s' a j = fw s a j" "sp s' a j = sp s a j"
    then have "\<exists>b\<in>set M. tall s' j b" using tM by auto
    then have "find (tall s' j) (M @ x # B) = find (tall s' j) M"
      "gap (tall s' j) (M @ x # B) = gap (tall s' j) M"
      by (simp_all add: find_tall gap_tall)
    moreover from 1(1) have "find (tall s j) (M @ B) = find (tall s j) M"
      "gap (tall s j) (M @ B) = gap (tall s j) M"
      by (simp_all add: find_tall gap_tall)
    ultimately show ?thesis using old 1 fM gM by (simp add: cell_ok_def)
  next
    assume 2: "\<forall>b\<in>set M. \<not> tall s j b" "tall s' j x" "fw s' a j = Some x"
      "sp s' a j = int (length M) + 1"
    then have "\<forall>b\<in>set M. \<not> tall s' j b" using tM by auto
    then have "find (tall s' j) (M @ x # B) = Some x" "gap (tall s' j) (M @ x # B) = int (length M) + 1"
      using 2(2) by (simp_all add: find_short gap_short)
    with 2 show ?thesis by (simp add: cell_ok_def)
  next
    assume 3: "\<forall>b\<in>set M. \<not> tall s j b" "\<not> tall s' j x" "fw s' a j = fw s a j"
      "sp s' a j = sp s a j + 1"
    then have "\<forall>b\<in>set M. \<not> tall s' j b" using tM by auto
    then have "find (tall s' j) (M @ x # B) = find (tall s' j) B"
      "gap (tall s' j) (M @ x # B) = int (length M) + 1 + gap (tall s' j) B"
      using 3(2) by (simp_all add: find_short gap_short)
    moreover from 3(1) have "find (tall s j) (M @ B) = find (tall s j) B"
      "gap (tall s j) (M @ B) = int (length M) + gap (tall s j) B"
      by (simp_all add: find_short gap_short)
    ultimately show ?thesis using old 3 fB gB by (simp add: cell_ok_def)
  qed
qed

lemma insert_shape:
  assumes sh: "sl_shape s (A @ B)"
    and lv: "1 \<le> lv" "lv \<le> level_sl s"
    and preds: "\<forall>j < level_sl s. is_pred s j A (U j) (R j)"
    and x: "x = length (store s)" "length (store s') = Suc x"
    and frame: "header s' = header s" "level_sl s' = level_sl s" "length_sl s' = length_sl s + 1"
      "\<forall>a < x. ht s' a = ht s a" "ht s' x = lv"
    and fwcf: "\<forall>a j. a < x \<or> (a = x \<and> j < lv) \<longrightarrow> fw s' a j =
      (if j < lv then (if a = x then fw s (U j) j else if a = U j then Some x else fw s a j)
       else fw s a j)"
    and spcf: "\<forall>a j. a < x \<or> (a = x \<and> j < lv) \<longrightarrow> sp s' a j =
      (if j < lv then (if a = x then sp s (U j) j - (R 0 - R j)
         else if a = U j then R 0 - R j + 1 else sp s a j)
       else if j < level_sl s \<and> a = U j then sp s a j + 1 else sp s a j)"
  shows "sl_shape s' (A @ x # B)"
proof -
  from sh have hv: "header s < x" and hh: "ht s (header s) = SKIPLIST_MAXLEVEL"
    and hn: "header s \<notin> set (A @ B)" and dist: "distinct (A @ B)"
    and nodes: "\<forall>a\<in>set (A @ B). a < x \<and> 1 \<le> ht s a \<and> ht s a \<le> level_sl s"
    and lvl: "1 \<le> level_sl s" "level_sl s \<le> SKIPLIST_MAXLEVEL"
    and len: "length_sl s = int (length (A @ B))"
    and cells: "cells_from s (A @ B) []" and hdr: "hdr_ok s (A @ B)"
    by (simp_all add: sl_shape_def x)
  have hts: "\<forall>b\<in>set (A @ B). ht s' b = ht s b" using nodes frame(4) by auto
  have xn: "x \<notin> set (A @ B)" using nodes by auto
  have R0: "R 0 = int (length A)"
  proof -
    from preds lvl have "is_pred s 0 A (U 0) (R 0)" by simp
    then show ?thesis by (rule is_pred_0) (use nodes in auto)
  qed
  have Umem: "U j = header s \<or> U j \<in> set A" if "j < level_sl s" for j
    using preds that is_pred_mem by blast
  have tx: "tall s' j x \<longleftrightarrow> j < lv" for j by (simp add: tall_def frame)
  \<comment> \<open>the nodes after the new one\<close>
  have cB: "cells_from s' B []"
  proof -
    have "\<forall>a\<in>set B. \<forall>i. fw s' a i = fw s a i \<and> sp s' a i = sp s a i"
    proof (intro ballI allI)
      fix a i assume a: "a \<in> set B"
      with nodes have ax: "a < x" by simp
      have "a \<noteq> U i" if "i < level_sl s"
        using Umem [OF that] a hn dist by auto
      with ax fwcf spcf lv show "fw s' a i = fw s a i \<and> sp s' a i = sp s a i" by auto
    qed
    moreover have "\<forall>b\<in>set (B @ []). ht s' b = ht s b" using hts by simp
    ultimately have "cells_from s' B [] = cells_from s B []" by (rule cells_from_cong)
    with cells show ?thesis by (simp add: cells_from_append)
  qed
  \<comment> \<open>the new node\<close>
  have cx: "\<forall>i < ht s' x. cell_ok s' x i B"
  proof (intro allI impI)
    fix i assume "i < ht s' x"
    then have i: "i < lv" "i < level_sl s" using frame(5) lv by simp_all
    from preds i have p: "is_pred s i A (U i) (R i)" by simp
    from pred_cell [OF sh i(2) p]
    have c: "fw s (U i) i = find (tall s i) B" "sp s (U i) i = int (length A) - R i + gap (tall s i) B"
      by simp_all
    have tB: "\<forall>b\<in>set B. tall s' i b = tall s i b" using hts by (simp add: tall_def)
    from fwcf spcf i have "fw s' x i = fw s (U i) i" "sp s' x i = sp s (U i) i - (R 0 - R i)"
      by simp_all
    with c R0 find_cong_set [OF tB] gap_cong_set [OF tB]
    show "cell_ok s' x i B" by (simp add: cell_ok_def)
  qed
  \<comment> \<open>the nodes before the new one\<close>
  have cA: "cells_from s' A (x # B)"
    unfolding cells_from_iff
  proof (intro allI impI)
    fix P a M i assume A: "A = P @ a # M" and "i < ht s' a"
    from A nodes have ax: "a < x" and ai: "ht s a \<le> level_sl s" by simp_all
    with \<open>i < ht s' a\<close> frame(4) have i: "i < ht s a" "i < level_sl s" by simp_all
    from preds i have p: "is_pred s i A (U i) (R i)" by simp
    from cells A have "cells_from s (P @ a # (M @ B)) []" by simp
    from cells_from_split [OF this i(1)] have old: "cell_ok s a i (M @ B)" by simp
    have h: "\<forall>b\<in>set (M @ B). ht s' b = ht s b" using hts A by simp
    have dA: "distinct A" "header s \<notin> set A" using dist hn by simp_all
    show "cell_ok s' a i (M @ x # B)"
    proof (rule cell_insert [OF old h])
      show "((\<exists>b\<in>set M. tall s i b) \<and> fw s' a i = fw s a i \<and> sp s' a i = sp s a i) \<or>
        ((\<forall>b\<in>set M. \<not> tall s i b) \<and> tall s' i x \<and> fw s' a i = Some x \<and> sp s' a i = int (length M) + 1) \<or>
        ((\<forall>b\<in>set M. \<not> tall s i b) \<and> \<not> tall s' i x \<and> fw s' a i = fw s a i \<and> sp s' a i = sp s a i + 1)"
      proof (cases "\<exists>b\<in>set M. tall s i b")
        case True
        from is_pred_not [OF p dA A True] have "U i \<noteq> a" .
        with ax fwcf spcf True show ?thesis by auto
      next
        case False
        then have sh: "\<forall>b\<in>set M. \<not> tall s i b" by simp
        from i have "tall s i a" by (simp add: tall_def)
        from is_pred_split [OF p dA(1) A this sh] have u: "U i = a" "R i = int (length P) + 1"
          by simp_all
        show ?thesis
        proof (cases "i < lv")
          case True
          with ax fwcf spcf u R0 A sh tx show ?thesis by auto
        next
          case False
          with ax fwcf spcf u i sh tx show ?thesis by auto
        qed
      qed
    qed
  qed
  \<comment> \<open>the header\<close>
  have cH: "hdr_ok s' (A @ x # B)"
    unfolding hdr_ok_def
  proof (intro conjI allI impI)
    fix i assume "i < level_sl s'"
    then have i: "i < level_sl s" using frame by simp
    from preds i have p: "is_pred s i A (U i) (R i)" by simp
    from hdr i have old: "cell_ok s (header s) i (A @ B)" by (simp add: hdr_ok_def)
    have "cell_ok s' (header s) i (A @ x # B)"
    proof (rule cell_insert [OF old hts])
      show "((\<exists>b\<in>set A. tall s i b) \<and> fw s' (header s) i = fw s (header s) i \<and>
            sp s' (header s) i = sp s (header s) i) \<or>
        ((\<forall>b\<in>set A. \<not> tall s i b) \<and> tall s' i x \<and> fw s' (header s) i = Some x \<and>
            sp s' (header s) i = int (length A) + 1) \<or>
        ((\<forall>b\<in>set A. \<not> tall s i b) \<and> \<not> tall s' i x \<and> fw s' (header s) i = fw s (header s) i \<and>
            sp s' (header s) i = sp s (header s) i + 1)"
      proof (cases "\<exists>b\<in>set A. tall s i b")
        case True
        from is_pred_not_hdr [OF p True] hn have "U i \<noteq> header s" by simp
        with hv fwcf spcf True show ?thesis by auto
      next
        case False
        then have sh: "\<forall>b\<in>set A. \<not> tall s i b" by simp
        from is_pred_hdr [OF p sh] have u: "U i = header s" "R i = 0" by simp_all
        show ?thesis
        proof (cases "i < lv")
          case True
          with hv fwcf spcf u R0 sh tx show ?thesis by auto
        next
          case False
          with hv fwcf spcf u i sh tx show ?thesis by auto
        qed
      qed
    qed
    then show "cell_ok s' (header s') i (A @ x # B)" by (simp add: frame)
  next
    fix i assume "level_sl s' \<le> i \<and> i < SKIPLIST_MAXLEVEL"
    then have i: "level_sl s \<le> i" "i < SKIPLIST_MAXLEVEL" using frame by simp_all
    with hdr have "fw s (header s) i = None" by (simp add: hdr_ok_def)
    moreover from fwcf hv i lv have "fw s' (header s) i = fw s (header s) i" by simp
    ultimately show "fw s' (header s') i = None" by (simp add: frame)
  qed
  have "cells_from s' (A @ x # B) []"
    using cA cx cB by (simp add: cells_from_append)
  moreover have "\<forall>a\<in>set (A @ x # B). a < length (store s') \<and> 1 \<le> ht s' a \<and> ht s' a \<le> level_sl s'"
  proof
    fix a assume "a \<in> set (A @ x # B)"
    then consider "a = x" | "a \<in> set (A @ B)" by auto
    then show "a < length (store s') \<and> 1 \<le> ht s' a \<and> ht s' a \<le> level_sl s'"
    proof cases
      case 1
      with frame x lv show ?thesis by simp
    next
      case 2
      with nodes have "a < x \<and> 1 \<le> ht s a \<and> ht s a \<le> level_sl s" by blast
      moreover from 2 hts have "ht s' a = ht s a" by blast
      ultimately show ?thesis using frame(2) x(2) by simp
    qed
  qed
  moreover have "distinct (A @ x # B)" "header s' \<notin> set (A @ x # B)"
    using dist xn hn hv frame by auto
  moreover have "length_sl s' = int (length (A @ x # B))" using len frame by simp
  moreover have "header s' < length (store s')" "ht s' (header s') = SKIPLIST_MAXLEVEL"
    using hv hh frame x by simp_all
  ultimately show ?thesis
    unfolding sl_shape_def using cH lvl frame(2) by simp
qed

lemma is_pred_mono:
  assumes "is_pred s i A u r" "header s' = header s" "\<forall>a\<in>set A. ht s' a = ht s a"
  shows "is_pred s' i A u r"
proof -
  from assms(3) have t: "\<forall>a\<in>set A. tall s' i a = tall s i a" by (simp add: tall_def)
  from assms(1) consider "u = header s" "r = 0" "\<forall>a\<in>set A. \<not> tall s i a"
    | P M where "A = P @ u # M" "tall s i u" "\<forall>a\<in>set M. \<not> tall s i a" "r = int (length P) + 1"
    unfolding is_pred_def by blast
  then show ?thesis
  proof cases
    case 1
    with t assms(2) show ?thesis by (simp add: is_pred_def)
  next
    case 2
    with t have "A = P @ u # M \<and> tall s' i u \<and> (\<forall>a\<in>set M. \<not> tall s' i a) \<and> r = int (length P) + 1"
      by simp
    then show ?thesis unfolding is_pred_def by blast
  qed
qed

lemma is_pred_cong:
  "header s' = header s \<Longrightarrow> \<forall>a\<in>set A. ht s' a = ht s a \<Longrightarrow> is_pred s' i A u r = is_pred s i A u r"
  using is_pred_mono [of s i A u r s'] is_pred_mono [of s' i A u r s] by auto

lemma gap_all_short: "\<forall>a\<in>set xs. \<not> T a \<Longrightarrow> gap T xs = int (length xs)"
  using gap_short [of xs T "[]"] by simp

lemma raise_shape:
  assumes sh: "sl_shape sl ns" and lv: "level_sl sl \<le> lv" "lv \<le> SKIPLIST_MAXLEVEL"
    and frame: "header s1 = header sl" "length (store s1) = length (store sl)" "ht s1 = ht sl"
      "length_sl s1 = length_sl sl" "level_sl s1 = lv" "fw s1 = fw sl"
    and sp: "\<forall>b j. sp s1 b j = (if level_sl sl \<le> j \<and> j < lv \<and> b = header sl then length_sl sl else sp sl b j)"
  shows "sl_shape s1 ns"
proof -
  from sh have hn: "header sl \<notin> set ns"
    and nodes: "\<forall>a\<in>set ns. a < length (store sl) \<and> 1 \<le> ht sl a \<and> ht sl a \<le> level_sl sl"
    and len: "length_sl sl = int (length ns)"
    and cells: "cells_from sl ns []" and hdr: "hdr_ok sl ns"
    by (simp_all add: sl_shape_def)
  have "cells_from s1 ns [] = cells_from sl ns []"
  proof (rule cells_from_cong)
    show "\<forall>a\<in>set ns. \<forall>i. fw s1 a i = fw sl a i \<and> sp s1 a i = sp sl a i"
      using frame sp hn by auto
    show "\<forall>b\<in>set (ns @ []). ht s1 b = ht sl b" using frame by simp
  qed
  with cells have c1: "cells_from s1 ns []" by simp
  have t: "tall s1 i = tall sl i" for i by (simp add: tall_def frame fun_eq_iff)
  have h1: "hdr_ok s1 ns"
    unfolding hdr_ok_def
  proof (intro conjI allI impI)
    fix i assume i: "i < level_sl s1"
    show "cell_ok s1 (header s1) i ns"
    proof (cases "i < level_sl sl")
      case True
      with hdr have "cell_ok sl (header sl) i ns" by (simp add: hdr_ok_def)
      with True sp frame t show ?thesis by (simp add: cell_ok_def)
    next
      case False
      with nodes have "\<forall>a\<in>set ns. \<not> tall sl i a" by (auto simp: tall_def)
      then have "find (tall sl i) ns = None" "gap (tall sl i) ns = int (length ns)"
        by (simp_all add: find_None_iff gap_all_short)
      moreover from False hdr i lv frame have "fw sl (header sl) i = None" by (simp add: hdr_ok_def)
      ultimately show ?thesis using False i sp frame t len by (simp add: cell_ok_def)
    qed
  next
    fix i assume "level_sl s1 \<le> i \<and> i < SKIPLIST_MAXLEVEL"
    with hdr lv frame show "fw s1 (header s1) i = None" by (simp add: hdr_ok_def)
  qed
  from sh c1 h1 frame lv nodes show ?thesis
    by (auto simp: sl_shape_def)
qed

lemma insert_sl_shape:
  assumes sh: "sl_shape sl (A @ B)"
    and pass: "\<forall>a\<in>set A. key_before sc e (store sl ! a)"
    and fail: "\<forall>b\<in>set B. \<not> key_before sc e (store sl ! b)"
  shows "\<exists>sl'. insert_sl sl sc e coins = Some (length (store sl), sl') \<and>
    sl_shape sl' (A @ length (store sl) # B) \<and>
    length (store sl') = Suc (length (store sl)) \<and>
    header sl' = header sl \<and>
    level_sl sl' = max (randomLevel coins) (level_sl sl) \<and>
    ht sl' (length (store sl)) = randomLevel coins \<and>
    ele (store sl' ! length (store sl)) = e \<and> score (store sl' ! length (store sl)) = sc \<and>
    (\<forall>a < length (store sl). ht sl' a = ht sl a \<and> ele (store sl' ! a) = ele (store sl ! a) \<and>
        score (store sl' ! a) = score (store sl ! a))"
proof -
  let ?lv = "randomLevel coins"
  let ?L = "level_sl sl"
  let ?x = "length (store sl)"
  let ?h = "header sl"
  note lvb = randomLevel_bounds [of coins]
  from sh have hv: "?h < ?x" and hh: "ht sl ?h = SKIPLIST_MAXLEVEL"
    and hn: "?h \<notin> set (A @ B)"
    and nodes: "\<forall>a\<in>set (A @ B). a < ?x \<and> 1 \<le> ht sl a \<and> ht sl a \<le> ?L"
    and lvl: "1 \<le> ?L" "?L \<le> SKIPLIST_MAXLEVEL"
    by (simp_all add: sl_shape_def)
  from nodes have nodesA: "\<forall>a\<in>set A. a < ?x \<and> 1 \<le> ht sl a \<and> ht sl a \<le> ?L"
    and nodesB: "\<forall>a\<in>set B. a < ?x \<and> 1 \<le> ht sl a \<and> ht sl a \<le> ?L"
    by simp_all
  \<comment> \<open>the search\<close>
  have "\<exists>x' u' r'. forM (rev [0..<?L]) (insert_find sl sc e)
      (?h, replicate SKIPLIST_MAXLEVEL None, replicate SKIPLIST_MAXLEVEL 0) = Some (x', u', r') \<and>
    length u' = SKIPLIST_MAXLEVEL \<and> length r' = SKIPLIST_MAXLEVEL \<and>
    (\<forall>j<?L. \<exists>a. u' ! j = Some a \<and> is_pred sl j A a (r' ! j)) \<and>
    (\<forall>j\<ge>?L. u' ! j = replicate SKIPLIST_MAXLEVEL None ! j \<and> r' ! j = replicate SKIPLIST_MAXLEVEL 0 ! j)"
    by (rule insert_find_loop [OF sh _ _ _ _ pass fail]) simp_all
  then obtain x0 u0 r0 where find:
    "forM (rev [0..<?L]) (insert_find sl sc e)
      (?h, replicate SKIPLIST_MAXLEVEL None, replicate SKIPLIST_MAXLEVEL 0) = Some (x0, u0, r0)"
    and len0: "length u0 = SKIPLIST_MAXLEVEL" "length r0 = SKIPLIST_MAXLEVEL"
    and pred0: "\<forall>j<?L. \<exists>a. u0 ! j = Some a \<and> is_pred sl j A a (r0 ! j)"
    by blast
  \<comment> \<open>raising the level\<close>
  have "\<exists>u r s1.
    (if ?L < ?lv then
       forM [?L..<?lv] insert_raise (u0, r0, sl) \<bind>
         (\<lambda>(update, rank, sl). Some (update, rank, sl\<lparr>level_sl := ?lv\<rparr>))
     else Some (u0, r0, sl)) = Some (u, r, s1) \<and>
    header s1 = ?h \<and> length (store s1) = ?x \<and> ht s1 = ht sl \<and> length_sl s1 = length_sl sl \<and>
    level_sl s1 = max ?lv ?L \<and> fw s1 = fw sl \<and>
    (\<forall>a. ele (store s1 ! a) = ele (store sl ! a) \<and> score (store s1 ! a) = score (store sl ! a)) \<and>
    (\<forall>b j. sp s1 b j = (if ?L \<le> j \<and> j < max ?lv ?L \<and> b = ?h then length_sl sl else sp sl b j)) \<and>
    length u = SKIPLIST_MAXLEVEL \<and> length r = SKIPLIST_MAXLEVEL \<and>
    (\<forall>j. u ! j = (if ?L \<le> j \<and> j < ?lv then Some ?h else u0 ! j)) \<and>
    (\<forall>j. r ! j = (if ?L \<le> j \<and> j < ?lv then 0 else r0 ! j))"
  proof (cases "?L < ?lv")
    case False
    then show ?thesis using len0 by (auto simp: max_def)
  next
    case True
    have "\<exists>u' r' s'. forM [?L..<?lv] insert_raise (u0, r0, sl) = Some (u', r', s') \<and>
      same_frame sl s' \<and> tail s' = tail sl \<and> fw s' = fw sl \<and> length u' = length u0 \<and> length r' = length r0 \<and>
      (\<forall>j. u' ! j = (if j \<in> set [?L..<?lv] then Some ?h else u0 ! j)) \<and>
      (\<forall>j. r' ! j = (if j \<in> set [?L..<?lv] then 0 else r0 ! j)) \<and>
      (\<forall>b j. sp s' b j = (if j \<in> set [?L..<?lv] \<and> b = ?h then length_sl sl else sp sl b j))"
      by (rule insert_raise_loop_total) (use len0 lvb hh hv in auto)
    then obtain u' r' s' where r: "forM [?L..<?lv] insert_raise (u0, r0, sl) = Some (u', r', s')"
      "same_frame sl s'" "fw s' = fw sl" "length u' = length u0" "length r' = length r0"
      "\<forall>j. u' ! j = (if j \<in> set [?L..<?lv] then Some ?h else u0 ! j)"
      "\<forall>j. r' ! j = (if j \<in> set [?L..<?lv] then 0 else r0 ! j)"
      "\<forall>b j. sp s' b j = (if j \<in> set [?L..<?lv] \<and> b = ?h then length_sl sl else sp sl b j)"
      by blast
    show ?thesis
      apply (rule exI [of _ u'], rule exI [of _ r'], rule exI [of _ "s'\<lparr>level_sl := ?lv\<rparr>"])
      using True r len0 by (auto simp: same_frame_def max_def fun_eq_iff)
  qed
  then obtain u r s1 where raise:
    "(if ?L < ?lv then
       forM [?L..<?lv] insert_raise (u0, r0, sl) \<bind>
         (\<lambda>(update, rank, sl). Some (update, rank, sl\<lparr>level_sl := ?lv\<rparr>))
     else Some (u0, r0, sl)) = Some (u, r, s1)"
    and f1: "header s1 = ?h" "length (store s1) = ?x" "ht s1 = ht sl" "length_sl s1 = length_sl sl"
      "level_sl s1 = max ?lv ?L" "fw s1 = fw sl"
    and d1: "\<forall>a. ele (store s1 ! a) = ele (store sl ! a) \<and> score (store s1 ! a) = score (store sl ! a)"
    and sp1: "\<forall>b j. sp s1 b j = (if ?L \<le> j \<and> j < max ?lv ?L \<and> b = ?h then length_sl sl else sp sl b j)"
    and len: "length u = SKIPLIST_MAXLEVEL" "length r = SKIPLIST_MAXLEVEL"
    and u: "\<forall>j. u ! j = (if ?L \<le> j \<and> j < ?lv then Some ?h else u0 ! j)"
    and r: "\<forall>j. r ! j = (if ?L \<le> j \<and> j < ?lv then 0 else r0 ! j)"
    by blast
  let ?L' = "max ?lv ?L"
  have sh1: "sl_shape s1 (A @ B)"
    by (rule raise_shape [OF sh _ _ f1(1,2,3,4,5,6)]) (use sp1 lvb lvl in auto)
  have pred1: "\<forall>j<?L'. \<exists>a. u ! j = Some a \<and> is_pred s1 j A a (r ! j)"
  proof (intro allI impI)
    fix j assume j: "j < ?L'"
    have c: "is_pred s1 j A a q = is_pred sl j A a q" for a q
      by (rule is_pred_cong) (simp_all add: f1)
    show "\<exists>a. u ! j = Some a \<and> is_pred s1 j A a (r ! j)"
    proof (cases "j < ?L")
      case True
      with pred0 u r c show ?thesis by simp
    next
      case False
      with nodesA have "\<forall>a\<in>set A. \<not> tall sl j a" by (auto simp: tall_def)
      then have "is_pred sl j A ?h 0" by (simp add: is_pred_def)
      moreover from False j have "?L \<le> j" "j < ?lv" by auto
      ultimately show ?thesis using u r c by simp
    qed
  qed
  define U where "U j = the (u ! j)" for j
  define R where "R j = r ! j" for j
  have UR: "\<forall>j<?L'. u ! j = Some (U j) \<and> is_pred s1 j A (U j) (R j)"
    using pred1 by (auto simp: U_def R_def)
  have Uv: "U j < ?x \<and> j < ht sl (U j)" if "j < ?L'" for j
    using pred_cell [OF sh1, of j "U j" "R j"] UR that f1 by auto
  \<comment> \<open>the new node and the splice\<close>
  let ?c = "snd (createNode s1 ?lv sc e)"
  have "\<exists>s'. forM [0..<?lv] (insert_splice ?x u r) ?c = Some s' \<and> same_frame ?c s' \<and> tail s' = tail ?c \<and>
    (\<forall>b j. fw s' b j = (if j \<in> set [0..<?lv] then (if b = ?x then fw ?c (the (u ! j)) j
        else if u ! j = Some b then Some ?x else fw ?c b j) else fw ?c b j)) \<and>
    (\<forall>b j. sp s' b j = (if j \<in> set [0..<?lv] then (if b = ?x then sp ?c (the (u ! j)) j - (r ! 0 - r ! j)
        else if u ! j = Some b then r ! 0 - r ! j + 1 else sp ?c b j) else sp ?c b j))"
  proof (rule insert_splice_loop)
    show "\<forall>j\<in>set [0..<?lv]. \<exists>a. u ! j = Some a \<and> a < length (store ?c) \<and> j < ht ?c a \<and> a \<noteq> ?x"
    proof
      fix j assume "j \<in> set [0..<?lv]"
      then have j: "j < ?L'" by simp
      from Uv [OF j] UR j f1 show "\<exists>a. u ! j = Some a \<and> a < length (store ?c) \<and> j < ht ?c a \<and> a \<noteq> ?x"
        by (intro exI [of _ "U j"]) simp
    qed
    show "?x < length (store ?c)" by (simp add: f1)
    show "\<forall>j\<in>set [0..<?lv]. j < ht ?c ?x \<and> j < length u \<and> j < length r"
      using len lvb f1(2) createNode_new(1) [of s1 ?lv sc e] by auto
    show "0 < length r" using len by (simp add: SKIPLIST_MAXLEVEL_def)
    show "distinct [0..<?lv]" by simp
  qed
  then obtain s3 where splice: "forM [0..<?lv] (insert_splice ?x u r) ?c = Some s3"
    and f3: "same_frame ?c s3"
    and fw3: "\<forall>b j. fw s3 b j = (if j < ?lv then (if b = ?x then fw ?c (the (u ! j)) j
        else if u ! j = Some b then Some ?x else fw ?c b j) else fw ?c b j)"
    and sp3: "\<forall>b j. sp s3 b j = (if j < ?lv then (if b = ?x then sp ?c (the (u ! j)) j - (r ! 0 - r ! j)
        else if u ! j = Some b then r ! 0 - r ! j + 1 else sp ?c b j) else sp ?c b j)"
    by auto
  have l3: "level_sl s3 = ?L'" "length (store s3) = Suc ?x" "header s3 = ?h"
    using f3 f1 by (simp_all add: same_frame_def)
  have ht3: "ht s3 a = ht sl a" if "a < ?x" for a
    using f3 f1 that by (simp add: same_frame_def)
  \<comment> \<open>the levels above the new node\<close>
  have "\<exists>s'. forM [?lv..<?L'] (insert_bump u) s3 = Some s' \<and> same_frame s3 s' \<and> tail s' = tail s3 \<and>
    fw s' = fw s3 \<and>
    (\<forall>b j. sp s' b j = (if j \<in> set [?lv..<?L'] \<and> u ! j = Some b then sp s3 b j + 1 else sp s3 b j))"
  proof (rule insert_bump_loop)
    show "\<forall>j\<in>set [?lv..<?L']. \<exists>a. u ! j = Some a \<and> a < length (store s3) \<and> j < ht s3 a \<and> j < length u"
    proof
      fix j assume "j \<in> set [?lv..<?L']"
      then have j: "j < ?L'" by simp
      with lvb lvl have "j < SKIPLIST_MAXLEVEL" by simp
      with Uv [OF j] UR j l3 ht3 len
      show "\<exists>a. u ! j = Some a \<and> a < length (store s3) \<and> j < ht s3 a \<and> j < length u"
        by (intro exI [of _ "U j"]) simp
    qed
    show "distinct [?lv..<?L']" by simp
  qed
  then obtain s4 where bump: "forM [?lv..<?L'] (insert_bump u) s3 = Some s4"
    and f4: "same_frame s3 s4" "fw s4 = fw s3"
    and sp4: "\<forall>b j. sp s4 b j = (if ?lv \<le> j \<and> j < ?L' \<and> u ! j = Some b then sp s3 b j + 1 else sp s3 b j)"
    by auto
  \<comment> \<open>the backward pointers\<close>
  define s5 where "s5 = put_bw s4 ?x (if u ! 0 = Some (header s4) then None else u ! 0)"
  have l4: "length (store s4) = Suc ?x" "level_sl s4 = ?L'" "header s4 = ?h" "ht s4 ?x = ?lv"
    using f4 l3 f3 f1(2) createNode_new(1) [of s1 ?lv sc e] by (simp_all add: same_frame_def)
  have bw1: "(if u ! 0 = Some (header s4) then set_backward s4 ?x None
              else set_backward s4 ?x (u ! 0)) = Some s5"
    using l4 by (simp add: s5_def)
  have f5: "same_frame s4 s5" "fw s5 = fw s4" "sp s5 = sp s4"
    by (simp_all add: s5_def fun_eq_iff)
  have x0: "fw s5 ?x 0 = find (tall sl 0) B"
  proof -
    have 0: "0 < ?L'" "0 < ?lv" using lvb by simp_all
    from pred_cell [OF sh1 _ conjunct2 [OF UR [rule_format, OF 0(1)]]] 0 f1
    have "fw sl (U 0) 0 = find (tall s1 0) B" by simp
    moreover have "tall s1 0 = tall sl 0" by (simp add: tall_def f1 fun_eq_iff)
    moreover have "fw s5 ?x 0 = fw ?c (U 0) 0" using f5 f4 fw3 0 by (simp add: U_def)
    moreover have "fw ?c (U 0) 0 = fw sl (U 0) 0" using Uv [OF 0(1)] f1 by simp
    ultimately show ?thesis by simp
  qed
  define s6 where "s6 = (case fw s5 ?x 0 of None \<Rightarrow> s5\<lparr>tail := Some ?x\<rparr>
    | Some y \<Rightarrow> put_bw s5 y (Some ?x))"
  have bw2: "(case fw s5 ?x 0 of None \<Rightarrow> Some (s5\<lparr>tail := Some ?x\<rparr>)
    | Some y \<Rightarrow> set_backward s5 y (Some ?x)) = Some s6"
  proof (cases "fw s5 ?x 0")
    case None
    then show ?thesis by (simp add: s6_def)
  next
    case (Some y)
    with x0 have "y \<in> set B" by (metis find_Some_iff nth_mem)
    with nodesB have "y < ?x" by simp
    with Some f5 l4 show ?thesis by (simp add: s6_def same_frame_def)
  qed
  have f6: "same_frame s5 s6" "fw s6 = fw s5" "sp s6 = sp s5"
    by (simp_all add: s6_def fun_eq_iff split: option.splits)
  define sl' where "sl' = s6\<lparr>length_sl := length_sl s6 + 1\<rparr>"
  have fr: "same_frame ?c s6"
    using f3 f4(1) f5(1) f6(1) by (blast intro: same_frame_trans)
  have i0: "idx u 0 = Some (u ! 0)" using len by (simp add: idx_def SKIPLIST_MAXLEVEL_def)
  have lx: "lev s5 ?x 0 = Some (level (store s5 ! ?x) ! 0)"
    using f5(1) l4 lvb(1) by (simp add: lev_def node_def idx_def same_frame_def ht_def)
  have bw2': "(case forward (level (store s5 ! ?x) ! 0) of None \<Rightarrow> Some (s5\<lparr>tail := Some ?x\<rparr>)
    | Some y \<Rightarrow> set_backward s5 y (Some ?x)) = Some s6"
    using bw2 by (simp add: fw_def)
  have run: "insert_sl sl sc e coins = Some (?x, sl')"
    unfolding insert_sl_def
    using find raise splice bump
    by (simp add: Let_def split_beta sl'_def l3 f1 i0 bw1 lx bw2' cong: if_cong option.case_cong)
  have shape: "sl_shape sl' (A @ ?x # B)"
  proof (rule insert_shape [OF sh1, where lv = ?lv and U = U and R = R])
    show "1 \<le> ?lv" "?lv \<le> level_sl s1" using lvb f1 by simp_all
    show "\<forall>j<level_sl s1. is_pred s1 j A (U j) (R j)" using UR f1 by simp
    show "?x = length (store s1)" using f1 by simp
    show "length (store sl') = Suc ?x" using fr f1 by (simp add: sl'_def same_frame_def)
    show "header sl' = header s1" "level_sl sl' = level_sl s1" "length_sl sl' = length_sl s1 + 1"
      using fr f1 by (simp_all add: sl'_def same_frame_def)
    show "\<forall>a<?x. ht sl' a = ht s1 a" using fr f1 by (simp add: sl'_def same_frame_def)
    show "ht sl' ?x = ?lv" using fr f1(2) createNode_new(1) [of s1 ?lv sc e]
      by (simp add: sl'_def same_frame_def)
    have fwf: "fw sl' = fw s3" "sp sl' = sp s4"
      using f4 f5 f6 by (simp_all add: sl'_def)
    show "\<forall>a j. a < ?x \<or> (a = ?x \<and> j < ?lv) \<longrightarrow> fw sl' a j =
      (if j < ?lv then (if a = ?x then fw s1 (U j) j else if a = U j then Some ?x else fw s1 a j)
       else fw s1 a j)"
    proof (intro allI impI)
      fix a j assume aj: "a < ?x \<or> (a = ?x \<and> j < ?lv)"
      show "fw sl' a j =
        (if j < ?lv then (if a = ?x then fw s1 (U j) j else if a = U j then Some ?x else fw s1 a j)
         else fw s1 a j)"
      proof (cases "j < ?lv")
        case True
        then have j: "j < ?L'" by simp
        from UR j have uj: "u ! j = Some (U j)" by simp
        from Uv [OF j] f1 have "fw ?c (U j) j = fw s1 (U j) j" by simp
        moreover have "fw ?c a j = fw s1 a j" if "a \<noteq> ?x"
          using that aj f1 by simp
        moreover have "the (u ! j) = U j" by (simp add: U_def)
        ultimately show ?thesis using True fw3 fwf uj by auto
      next
        case False
        with aj have "a < ?x" by simp
        with False fw3 fwf f1 show ?thesis by simp
      qed
    qed
    show "\<forall>a j. a < ?x \<or> (a = ?x \<and> j < ?lv) \<longrightarrow> sp sl' a j =
      (if j < ?lv then (if a = ?x then sp s1 (U j) j - (R 0 - R j)
         else if a = U j then R 0 - R j + 1 else sp s1 a j)
       else if j < level_sl s1 \<and> a = U j then sp s1 a j + 1 else sp s1 a j)"
    proof (intro allI impI)
      fix a j assume aj: "a < ?x \<or> (a = ?x \<and> j < ?lv)"
      show "sp sl' a j =
        (if j < ?lv then (if a = ?x then sp s1 (U j) j - (R 0 - R j)
           else if a = U j then R 0 - R j + 1 else sp s1 a j)
         else if j < level_sl s1 \<and> a = U j then sp s1 a j + 1 else sp s1 a j)"
      proof (cases "j < ?lv")
        case True
        then have j: "j < ?L'" by simp
        from UR j have uj: "u ! j = Some (U j)" by simp
        from Uv [OF j] f1 have "sp ?c (U j) j = sp s1 (U j) j" by simp
        moreover have "sp ?c a j = sp s1 a j" if "a \<noteq> ?x"
          using that aj f1 by simp
        moreover have "the (u ! j) = U j" by (simp add: U_def)
        ultimately show ?thesis using True sp3 sp4 fwf uj by (auto simp: R_def)
      next
        case False
        with aj have ax: "a < ?x" by simp
        then have c: "sp ?c a j = sp s1 a j" using f1 by simp
        show ?thesis
        proof (cases "j < ?L'")
          case True
          from UR True have uj: "u ! j = Some (U j)" by simp
          with False True c sp3 sp4 fwf f1 show ?thesis by auto
        next
          case False
          with \<open>\<not> j < ?lv\<close> c sp3 sp4 fwf f1 show ?thesis by auto
        qed
      qed
    qed
  qed
  have "length (store sl') = Suc ?x" "header sl' = ?h" "level_sl sl' = ?L'"
    "ht sl' ?x = ?lv" "ele (store sl' ! ?x) = e" "score (store sl' ! ?x) = sc"
    using fr f1 createNode_new(1,4,5) [of s1 ?lv sc e] by (simp_all add: sl'_def same_frame_def)
  moreover have "\<forall>a < ?x. ht sl' a = ht sl a \<and> ele (store sl' ! a) = ele (store sl ! a) \<and>
        score (store sl' ! a) = score (store sl ! a)"
    using fr f1 d1 by (simp add: sl'_def same_frame_def)
  ultimately show ?thesis using run shape by blast
qed

text \<open>The same walk when the test looks at the next node only; the accumulator is free.\<close>

lemma advance_pred_free:
  assumes wf: "sl_shape sl (A1 @ A2 @ B)" and i: "i < level_sl sl"
    and p: "is_pred sl i A1 cur rk"
    and go: "\<And>l n a. go l n a = Q n"
    and pass: "\<forall>a\<in>set A2. Q (store sl ! a)"
    and fail: "\<forall>b\<in>set B. \<not> Q (store sl ! b)"
  shows "\<exists>u r rk'. advance sl i go cur acc = Some (u, r) \<and> is_pred sl i (A1 @ A2) u rk'"
  using wf p pass
proof (induction A2 arbitrary: A1 cur rk acc)
  case Nil
  from pred_cell [OF _ i Nil.prems(2), of B] Nil.prems(1)
  have c: "cur < length (store sl)" "i < ht sl cur" "fw sl cur i = find (tall sl i) B" by simp_all
  have "advance sl i go cur acc = Some (cur, acc)"
  proof (cases "find (tall sl i) B")
    case None
    with c show ?thesis by (simp add: advance_step)
  next
    case (Some b)
    then have b: "b \<in> set B" by (metis find_Some_iff nth_mem)
    with fail have "\<not> go (level (store sl ! cur) ! i) (store sl ! b) acc" by (simp add: go)
    moreover from b Nil.prems(1) have "b < length (store sl)" by (simp add: sl_shape_def)
    ultimately show ?thesis using c Some by (simp add: advance_step)
  qed
  with Nil.prems(2) show ?case by auto
next
  case (Cons a A2)
  have wf': "sl_shape sl ((A1 @ [a]) @ A2 @ B)" using Cons.prems(1) by simp
  have pass': "\<forall>a\<in>set A2. Q (store sl ! a)" using Cons.prems(3) by simp
  show ?case
  proof (cases "tall sl i a")
    case False
    from is_pred_snoc_short [OF Cons.prems(2) False]
    have "is_pred sl i (A1 @ [a]) cur rk" .
    from Cons.IH [OF wf' this pass'] show ?thesis by simp
  next
    case True
    from pred_cell [OF _ i Cons.prems(2), of "a # A2 @ B"] Cons.prems(1) True
    have c: "cur < length (store sl)" "i < ht sl cur" "fw sl cur i = Some a" by simp_all
    from Cons.prems(1) have av: "a < length (store sl)" by (simp add: sl_shape_def)
    from Cons.prems(3) have "go (level (store sl ! cur) ! i) (store sl ! a) acc" by (simp add: go)
    with c av have "advance sl i go cur acc = advance sl i go a (acc + sp sl cur i)"
      by (simp add: advance_step)
    moreover from Cons.IH [OF wf' is_pred_snoc_tall [OF True] pass']
    obtain u r rk' where "advance sl i go a (acc + sp sl cur i) = Some (u, r)"
      "is_pred sl i ((A1 @ [a]) @ A2) u rk'" by blast
    ultimately show ?thesis by auto
  qed
qed

lemma descend_step_free:
  assumes wf: "sl_shape sl (A @ B)" and i: "i < level_sl sl"
    and start: "(Suc i = level_sl sl \<and> cur = header sl) \<or> (\<exists>rk. is_pred sl (Suc i) A cur rk)"
    and go: "\<And>l n a. go l n a = Q n"
    and pass: "\<forall>a\<in>set A. Q (store sl ! a)"
    and fail: "\<forall>b\<in>set B. \<not> Q (store sl ! b)"
  shows "\<exists>u r rk. advance sl i go cur acc = Some (u, r) \<and> is_pred sl i A u rk"
proof -
  from start obtain A1 A2 rk where s: "A = A1 @ A2" "is_pred sl i A1 cur rk"
  proof
    assume "Suc i = level_sl sl \<and> cur = header sl"
    then have "A = [] @ A" "is_pred sl i [] cur 0" by simp_all
    then show ?thesis by (rule that)
  next
    assume "\<exists>rk. is_pred sl (Suc i) A cur rk"
    then obtain rk where "is_pred sl (Suc i) A cur rk" ..
    from is_pred_down [OF this] that show ?thesis by blast
  qed
  have wf': "sl_shape sl (A1 @ A2 @ B)" using wf s(1) by simp
  have pass': "\<forall>a\<in>set A2. Q (store sl ! a)" using pass s(1) by simp
  from advance_pred_free [OF wf' i s(2) go pass' fail] s(1) show ?thesis by simp
qed

lemma delete_find_loop:
  assumes wf: "sl_shape sl (A @ B)" and n: "n \<le> level_sl sl"
    and len: "length u = SKIPLIST_MAXLEVEL"
    and start: "(n = level_sl sl \<and> x = header sl) \<or> (n < level_sl sl \<and> (\<exists>rk. is_pred sl n A x rk))"
    and pass: "\<forall>a\<in>set A. key_before sc e (store sl ! a)"
    and fail: "\<forall>b\<in>set B. \<not> key_before sc e (store sl ! b)"
  shows "\<exists>x' u'. forM (rev [0..<n]) (delete_find sl sc e) (x, u) = Some (x', u') \<and>
    length u' = SKIPLIST_MAXLEVEL \<and>
    (\<forall>j<n. \<exists>a rk. u' ! j = Some a \<and> is_pred sl j A a rk) \<and>
    (\<forall>j\<ge>n. u' ! j = u ! j) \<and> (if n = 0 then x' = x else u' ! 0 = Some x')"
  using n len start
proof (induction n arbitrary: x u)
  case 0
  then show ?case by simp
next
  case (Suc n)
  have nl: "n < level_sl sl" "n < SKIPLIST_MAXLEVEL"
    using Suc.prems(1) wf by (auto simp: sl_shape_def)
  have st: "(Suc n = level_sl sl \<and> x = header sl) \<or> (\<exists>rk. is_pred sl (Suc n) A x rk)"
    using Suc.prems(3) by auto
  have go: "\<And>l m a. key_lt sc e l m a = key_before sc e m"
    by (simp add: key_lt_def key_before_def)
  have "\<exists>u r rk. advance sl n (key_lt sc e) x 0 = Some (u, r) \<and> is_pred sl n A u rk"
    by (rule descend_step_free [OF wf nl(1) st _ pass fail]) (rule go)
  then obtain x1 r1 rk1 where adv: "advance sl n (key_lt sc e) x 0 = Some (x1, r1)"
    and p1: "is_pred sl n A x1 rk1" by blast
  have step: "delete_find sl sc e n (x, u) = Some (x1, u[n := Some x1])"
    using adv nl Suc.prems(2) by (auto simp: delete_find_def bind_eq_Some_conv)
  have "\<exists>x' u'. forM (rev [0..<n]) (delete_find sl sc e) (x1, u[n := Some x1]) = Some (x', u') \<and>
    length u' = SKIPLIST_MAXLEVEL \<and>
    (\<forall>j<n. \<exists>a rk. u' ! j = Some a \<and> is_pred sl j A a rk) \<and>
    (\<forall>j\<ge>n. u' ! j = u[n := Some x1] ! j) \<and> (if n = 0 then x' = x1 else u' ! 0 = Some x')"
    by (rule Suc.IH) (use nl Suc.prems p1 in auto)
  then obtain x' u' where
    res: "forM (rev [0..<n]) (delete_find sl sc e) (x1, u[n := Some x1]) = Some (x', u')"
      "length u' = SKIPLIST_MAXLEVEL"
      "\<forall>j<n. \<exists>a rk. u' ! j = Some a \<and> is_pred sl j A a rk"
      "\<forall>j\<ge>n. u' ! j = u[n := Some x1] ! j" "if n = 0 then x' = x1 else u' ! 0 = Some x'"
    by blast
  have "forM (rev [0..<Suc n]) (delete_find sl sc e) (x, u) = Some (x', u')"
    using step res(1) by simp
  moreover have "\<forall>j<Suc n. \<exists>a rk. u' ! j = Some a \<and> is_pred sl j A a rk"
    using res(3,4) p1 nl Suc.prems(2) by (auto simp: less_Suc_eq)
  moreover have "\<forall>j\<ge>Suc n. u' ! j = u ! j"
    using res(4) by auto
  moreover have "u' ! 0 = Some x'"
    using res(4,5) nl Suc.prems(2) by (cases "n = 0") auto
  ultimately show ?case using res(2) by auto
qed

lemma deleteNode_unlink_loop:
  assumes "\<forall>j\<in>set xs. \<exists>a. u ! j = Some a \<and> a < length (store s) \<and> j < ht s a \<and> a \<noteq> y \<and>
      j < length u \<and> (fw s a j = Some y \<longrightarrow> j < ht s y)"
    and "y < length (store s)" "distinct xs"
  shows "\<exists>s'. forM xs (deleteNode_unlink y u) s = Some s' \<and> same_frame s s' \<and> tail s' = tail s \<and>
    (\<forall>b j. fw s' b j = (if j \<in> set xs \<and> u ! j = Some b \<and> fw s b j = Some y then fw s y j
        else fw s b j)) \<and>
    (\<forall>b j. sp s' b j = (if j \<in> set xs \<and> u ! j = Some b then
        (if fw s b j = Some y then sp s b j + (sp s y j - 1) else sp s b j - 1) else sp s b j))"
  using assms
proof (induction xs arbitrary: s)
  case Nil
  then show ?case by simp
next
  case (Cons i xs)
  from Cons.prems(1) obtain a where a: "u ! i = Some a" "a < length (store s)" "i < ht s a" "a \<noteq> y"
    "i < length u" "fw s a i = Some y \<longrightarrow> i < ht s y"
    by auto
  have "\<exists>s1. deleteNode_unlink y u i s = Some s1 \<and> same_frame s s1 \<and> tail s1 = tail s \<and>
    (\<forall>b j. fw s1 b j = (if j = i \<and> b = a \<and> fw s b j = Some y then fw s y j else fw s b j)) \<and>
    (\<forall>b j. sp s1 b j = (if j = i \<and> b = a then
        (if fw s b j = Some y then sp s b j + (sp s y j - 1) else sp s b j - 1) else sp s b j))"
    using a Cons.prems(2)
    by (auto simp: deleteNode_unlink_def bind_eq_Some_conv same_frame_def fw_def [symmetric]
        sp_def [symmetric])
  then obtain s1 where s1: "deleteNode_unlink y u i s = Some s1" "same_frame s s1" "tail s1 = tail s"
    "\<forall>b j. fw s1 b j = (if j = i \<and> b = a \<and> fw s b j = Some y then fw s y j else fw s b j)"
    "\<forall>b j. sp s1 b j = (if j = i \<and> b = a then
        (if fw s b j = Some y then sp s b j + (sp s y j - 1) else sp s b j - 1) else sp s b j)"
    by blast
  have ni: "i \<notin> set xs" using Cons.prems(3) by simp
  have "\<exists>s'. forM xs (deleteNode_unlink y u) s1 = Some s' \<and> same_frame s1 s' \<and> tail s' = tail s1 \<and>
    (\<forall>b j. fw s' b j = (if j \<in> set xs \<and> u ! j = Some b \<and> fw s1 b j = Some y then fw s1 y j
        else fw s1 b j)) \<and>
    (\<forall>b j. sp s' b j = (if j \<in> set xs \<and> u ! j = Some b then
        (if fw s1 b j = Some y then sp s1 b j + (sp s1 y j - 1) else sp s1 b j - 1) else sp s1 b j))"
  proof (rule Cons.IH)
    show "\<forall>j\<in>set xs. \<exists>a. u ! j = Some a \<and> a < length (store s1) \<and> j < ht s1 a \<and> a \<noteq> y \<and>
      j < length u \<and> (fw s1 a j = Some y \<longrightarrow> j < ht s1 y)"
      using Cons.prems(1) s1(2,4) ni by (auto simp: same_frame_def)
    show "y < length (store s1)" using Cons.prems(2) s1(2) by (simp add: same_frame_def)
    show "distinct xs" using Cons.prems(3) by simp
  qed
  then obtain s' where s': "forM xs (deleteNode_unlink y u) s1 = Some s'" "same_frame s1 s'"
    "tail s' = tail s1"
    "\<forall>b j. fw s' b j = (if j \<in> set xs \<and> u ! j = Some b \<and> fw s1 b j = Some y then fw s1 y j
        else fw s1 b j)"
    "\<forall>b j. sp s' b j = (if j \<in> set xs \<and> u ! j = Some b then
        (if fw s1 b j = Some y then sp s1 b j + (sp s1 y j - 1) else sp s1 b j - 1) else sp s1 b j)"
    by blast
  have "forM (i # xs) (deleteNode_unlink y u) s = Some s'" using s1(1) s'(1) by simp
  moreover have "same_frame s s'" using s1(2) s'(2) by (rule same_frame_trans)
  moreover have "tail s' = tail s" using s1(3) s'(3) by simp
  moreover have "\<forall>b j. fw s' b j = (if j \<in> set (i # xs) \<and> u ! j = Some b \<and> fw s b j = Some y
      then fw s y j else fw s b j)"
    using s'(4) s1(4) ni a by auto
  moreover have "\<forall>b j. sp s' b j = (if j \<in> set (i # xs) \<and> u ! j = Some b then
        (if fw s b j = Some y then sp s b j + (sp s y j - 1) else sp s b j - 1) else sp s b j)"
    using s'(5) s1(4,5) ni a by auto
  ultimately show ?case by blast
qed

lemma deleteNode_shrink_total:
  "header s < length (store s) \<Longrightarrow> n \<le> ht s (header s) \<Longrightarrow> \<exists>k. deleteNode_shrink s n = Some k"
  by (induction n) (auto simp: lev_def node_def idx_def ht_def split: option.splits)

text \<open>A level entry before the deleted node \<open>y\<close>, once \<open>y\<close> is unlinked.\<close>

lemma cell_delete:
  assumes old: "cell_ok s a j (M @ y # B)"
    and celly: "tall s j y \<longrightarrow> cell_ok s y j B"
    and hts: "\<forall>b\<in>set (M @ B). ht s' b = ht s b"
    and yB: "y \<notin> set B"
    and cases: "((\<exists>b\<in>set M. tall s j b) \<and> fw s' a j = fw s a j \<and> sp s' a j = sp s a j) \<or>
      ((\<forall>b\<in>set M. \<not> tall s j b) \<and>
        fw s' a j = (if fw s a j = Some y then fw s y j else fw s a j) \<and>
        sp s' a j = (if fw s a j = Some y then sp s a j + (sp s y j - 1) else sp s a j - 1))"
  shows "cell_ok s' a j (M @ B)"
proof -
  from hts have tM: "\<forall>b\<in>set M. tall s' j b = tall s j b" and tB: "\<forall>b\<in>set B. tall s' j b = tall s j b"
    by (auto simp: tall_def)
  note fM = find_cong_set [OF tM] and gM = gap_cong_set [OF tM]
    and fB = find_cong_set [OF tB] and gB = gap_cong_set [OF tB]
  from cases show ?thesis
  proof (elim disjE conjE)
    assume 1: "\<exists>b\<in>set M. tall s j b" "fw s' a j = fw s a j" "sp s' a j = sp s a j"
    then have "\<exists>b\<in>set M. tall s' j b" using tM by auto
    then have "find (tall s' j) (M @ B) = find (tall s' j) M"
      "gap (tall s' j) (M @ B) = gap (tall s' j) M"
      by (simp_all add: find_tall gap_tall)
    moreover from 1(1) have "find (tall s j) (M @ y # B) = find (tall s j) M"
      "gap (tall s j) (M @ y # B) = gap (tall s j) M"
      by (simp_all add: find_tall gap_tall)
    ultimately show ?thesis using old 1 fM gM by (simp add: cell_ok_def)
  next
    assume 2: "\<forall>b\<in>set M. \<not> tall s j b"
      "fw s' a j = (if fw s a j = Some y then fw s y j else fw s a j)"
      "sp s' a j = (if fw s a j = Some y then sp s a j + (sp s y j - 1) else sp s a j - 1)"
    then have sM: "\<forall>b\<in>set M. \<not> tall s' j b" using tM by auto
    have new: "find (tall s' j) (M @ B) = find (tall s j) B"
      "gap (tall s' j) (M @ B) = int (length M) + gap (tall s j) B"
      using sM fB gB by (simp_all add: find_short gap_short)
    from 2(1) old have o: "fw s a j = find (tall s j) (y # B)"
      "sp s a j = int (length M) + gap (tall s j) (y # B)"
      by (simp_all add: cell_ok_def find_short gap_short)
    show ?thesis
    proof (cases "tall s j y")
      case True
      with celly have "fw s y j = find (tall s j) B" "sp s y j = gap (tall s j) B"
        by (simp_all add: cell_ok_def)
      with True o 2 new show ?thesis by (simp add: cell_ok_def)
    next
      case False
      have "find (tall s j) B \<noteq> Some y"
        using yB by (metis find_Some_iff nth_mem)
      with False o 2 new show ?thesis by (simp add: cell_ok_def)
    qed
  qed
qed

lemma delete_shape:
  assumes sh: "sl_shape s (A @ y # B)"
    and preds: "\<forall>j < level_sl s. is_pred s j A (U j) (R j)"
    and frame: "header s' = header s" "length (store s') = length (store s)"
      "\<forall>a. ht s' a = ht s a" "length_sl s' = length_sl s - 1"
    and lvl': "level_sl s' \<le> level_sl s" "1 \<le> level_sl s'"
      "\<forall>j. level_sl s' \<le> j \<and> j < level_sl s \<longrightarrow> fw s' (header s) j = None"
    and fwcf: "\<forall>a j. fw s' a j =
      (if j < level_sl s \<and> a = U j \<and> fw s a j = Some y then fw s y j else fw s a j)"
    and spcf: "\<forall>a j. sp s' a j =
      (if j < level_sl s \<and> a = U j then
         (if fw s a j = Some y then sp s a j + (sp s y j - 1) else sp s a j - 1)
       else sp s a j)"
  shows "sl_shape s' (A @ B)"
proof -
  from sh have hv: "header s < length (store s)" and hh: "ht s (header s) = SKIPLIST_MAXLEVEL"
    and hn: "header s \<notin> set (A @ y # B)" and dist: "distinct (A @ y # B)"
    and nodes: "\<forall>a\<in>set (A @ y # B). a < length (store s) \<and> 1 \<le> ht s a \<and> ht s a \<le> level_sl s"
    and lvl: "1 \<le> level_sl s" "level_sl s \<le> SKIPLIST_MAXLEVEL"
    and len: "length_sl s = int (length (A @ y # B))"
    and cells: "cells_from s (A @ y # B) []" and hdr: "hdr_ok s (A @ y # B)"
    by (simp_all add: sl_shape_def)
  have hts: "\<forall>b\<in>set (M @ B). ht s' b = ht s b" for M using frame(3) by simp
  have yB: "y \<notin> set B" and yA: "y \<notin> set A" using dist by auto
  have Umem: "U j = header s \<or> U j \<in> set A" if "j < level_sl s" for j
    using preds that is_pred_mem by blast
  have celly: "tall s j y \<longrightarrow> cell_ok s y j B" for j
  proof
    assume "tall s j y"
    then have "j < ht s y" by (simp add: tall_def)
    from cells_from_split [OF cells this] show "cell_ok s y j B" by simp
  qed
  have cB: "cells_from s' B []"
  proof -
    have "\<forall>a\<in>set B. \<forall>i. fw s' a i = fw s a i \<and> sp s' a i = sp s a i"
    proof (intro ballI allI)
      fix a i assume a: "a \<in> set B"
      have "a \<noteq> U i" if "i < level_sl s"
        using Umem [OF that] a hn dist by auto
      with fwcf spcf show "fw s' a i = fw s a i \<and> sp s' a i = sp s a i" by auto
    qed
    moreover have "\<forall>b\<in>set (B @ []). ht s' b = ht s b" using frame(3) by simp
    ultimately have "cells_from s' B [] = cells_from s B []" by (rule cells_from_cong)
    moreover from cells have "cells_from s B []"
      using cells_from_append [of s "A @ [y]" B "[]"] by simp
    ultimately show ?thesis by simp
  qed
  have cA: "cells_from s' A B"
    unfolding cells_from_iff
  proof (intro allI impI)
    fix P a M i assume A: "A = P @ a # M" and "i < ht s' a"
    from A nodes have ai: "ht s a \<le> level_sl s" by simp
    with \<open>i < ht s' a\<close> frame(3) have i: "i < ht s a" "i < level_sl s" by simp_all
    from preds i have p: "is_pred s i A (U i) (R i)" by simp
    from cells A have "cells_from s (P @ a # (M @ y # B)) []" by simp
    from cells_from_split [OF this i(1)] have old: "cell_ok s a i (M @ y # B)" by simp
    have dA: "distinct A" "header s \<notin> set A" using dist hn by simp_all
    show "cell_ok s' a i (M @ B)"
    proof (rule cell_delete [OF old celly hts yB])
      show "((\<exists>b\<in>set M. tall s i b) \<and> fw s' a i = fw s a i \<and> sp s' a i = sp s a i) \<or>
        ((\<forall>b\<in>set M. \<not> tall s i b) \<and>
          fw s' a i = (if fw s a i = Some y then fw s y i else fw s a i) \<and>
          sp s' a i = (if fw s a i = Some y then sp s a i + (sp s y i - 1) else sp s a i - 1))"
      proof (cases "\<exists>b\<in>set M. tall s i b")
        case True
        from is_pred_not [OF p dA A True] have "U i \<noteq> a" .
        with fwcf spcf True show ?thesis by auto
      next
        case False
        then have sh: "\<forall>b\<in>set M. \<not> tall s i b" by simp
        from i have "tall s i a" by (simp add: tall_def)
        from is_pred_split [OF p dA(1) A this sh] have u: "U i = a" by simp
        with fwcf spcf i sh show ?thesis by auto
      qed
    qed
  qed
  have cH: "cell_ok s' (header s) i (A @ B)" if i: "i < level_sl s" for i
  proof -
    from preds i have p: "is_pred s i A (U i) (R i)" by simp
    from hdr i have old: "cell_ok s (header s) i (A @ y # B)" by (simp add: hdr_ok_def)
    show ?thesis
    proof (rule cell_delete [OF old celly hts yB])
      show "((\<exists>b\<in>set A. tall s i b) \<and> fw s' (header s) i = fw s (header s) i \<and>
            sp s' (header s) i = sp s (header s) i) \<or>
        ((\<forall>b\<in>set A. \<not> tall s i b) \<and>
          fw s' (header s) i = (if fw s (header s) i = Some y then fw s y i else fw s (header s) i) \<and>
          sp s' (header s) i = (if fw s (header s) i = Some y then sp s (header s) i + (sp s y i - 1)
             else sp s (header s) i - 1))"
      proof (cases "\<exists>b\<in>set A. tall s i b")
        case True
        from is_pred_not_hdr [OF p True] hn have "U i \<noteq> header s" by simp
        with fwcf spcf True show ?thesis by auto
      next
        case False
        then have sh: "\<forall>b\<in>set A. \<not> tall s i b" by simp
        from is_pred_hdr [OF p sh] have u: "U i = header s" by simp
        with fwcf spcf i sh show ?thesis by auto
      qed
    qed
  qed
  have low: "ht s' a \<le> level_sl s'" if a: "a \<in> set (A @ B)" for a
  proof (rule ccontr)
    assume "\<not> ht s' a \<le> level_sl s'"
    then have k: "level_sl s' \<le> ht s a - 1" "ht s a - 1 < ht s a" using frame(3) lvl' by auto
    from a nodes have "ht s a \<le> level_sl s" by auto
    with k have i: "ht s a - 1 < level_sl s" by simp
    from cH [OF i] have "fw s' (header s) (ht s a - 1) = find (tall s' (ht s a - 1)) (A @ B)"
      by (simp add: cell_ok_def)
    moreover have "tall s' (ht s a - 1) a" using k frame(3) by (simp add: tall_def)
    then have "find (tall s' (ht s a - 1)) (A @ B) \<noteq> None" using a by (auto simp: find_None_iff)
    moreover from lvl'(3) k i have "fw s' (header s) (ht s a - 1) = None" by simp
    ultimately show False by simp
  qed
  have hok: "hdr_ok s' (A @ B)"
    unfolding hdr_ok_def
  proof (intro conjI allI impI)
    fix i assume "i < level_sl s'"
    with lvl' have "i < level_sl s" by simp
    from cH [OF this] show "cell_ok s' (header s') i (A @ B)" by (simp add: frame)
  next
    fix i assume i: "level_sl s' \<le> i \<and> i < SKIPLIST_MAXLEVEL"
    show "fw s' (header s') i = None"
    proof (cases "i < level_sl s")
      case True
      with i lvl'(3) show ?thesis by (simp add: frame)
    next
      case False
      with hdr i have "fw s (header s) i = None" by (simp add: hdr_ok_def)
      with False fwcf show ?thesis by (simp add: frame)
    qed
  qed
  have "cells_from s' (A @ B) []" using cA cB by (simp add: cells_from_append)
  moreover have "\<forall>a\<in>set (A @ B). a < length (store s') \<and> 1 \<le> ht s' a \<and> ht s' a \<le> level_sl s'"
  proof
    fix a assume a: "a \<in> set (A @ B)"
    then have "a \<in> set (A @ y # B)" by auto
    with nodes have "a < length (store s) \<and> 1 \<le> ht s a" by blast
    with low [OF a] frame show "a < length (store s') \<and> 1 \<le> ht s' a \<and> ht s' a \<le> level_sl s'"
      by simp
  qed
  moreover have "distinct (A @ B)" "header s' \<notin> set (A @ B)" using dist hn frame by auto
  moreover have "length_sl s' = int (length (A @ B))" using len frame by simp
  moreover have "header s' < length (store s')" "ht s' (header s') = SKIPLIST_MAXLEVEL"
    using hv hh frame by simp_all
  moreover have "level_sl s' \<le> SKIPLIST_MAXLEVEL" using lvl lvl' by simp
  ultimately show ?thesis
    unfolding sl_shape_def using hok lvl'(2) by simp
qed

definition key_match :: "float64 \<Rightarrow> string \<Rightarrow> skiplistNode \<Rightarrow> bool" where
  "key_match sc e n \<longleftrightarrow> f_eq (score n) sc \<and> ele n = e"

lemma delete_sl_search:
  assumes sh: "sl_shape sl (A @ B)"
    and pass: "\<forall>a\<in>set A. key_before sc e (store sl ! a)"
    and fail: "\<forall>b\<in>set B. \<not> key_before sc e (store sl ! b)"
  shows "\<exists>x u U. forM (rev [0..<level_sl sl]) (delete_find sl sc e)
      (header sl, replicate SKIPLIST_MAXLEVEL None) = Some (x, u) \<and>
    length u = SKIPLIST_MAXLEVEL \<and>
    (\<forall>j<level_sl sl. u ! j = Some (U j) \<and> (\<exists>rk. is_pred sl j A (U j) rk)) \<and>
    x = U 0 \<and> x < length (store sl) \<and> 0 < ht sl x \<and> fw sl x 0 = (case B of [] \<Rightarrow> None | b # _ \<Rightarrow> Some b)"
proof -
  from sh have lvl: "1 \<le> level_sl sl"
    and nodes: "\<forall>a\<in>set (A @ B). 1 \<le> ht sl a"
    by (simp_all add: sl_shape_def)
  have "\<exists>x' u'. forM (rev [0..<level_sl sl]) (delete_find sl sc e)
      (header sl, replicate SKIPLIST_MAXLEVEL None) = Some (x', u') \<and>
    length u' = SKIPLIST_MAXLEVEL \<and>
    (\<forall>j<level_sl sl. \<exists>a rk. u' ! j = Some a \<and> is_pred sl j A a rk) \<and>
    (\<forall>j\<ge>level_sl sl. u' ! j = replicate SKIPLIST_MAXLEVEL None ! j) \<and>
    (if level_sl sl = 0 then x' = header sl else u' ! 0 = Some x')"
    by (rule delete_find_loop [OF sh _ _ _ pass fail]) simp_all
  then obtain x u where find: "forM (rev [0..<level_sl sl]) (delete_find sl sc e)
      (header sl, replicate SKIPLIST_MAXLEVEL None) = Some (x, u)"
    and len: "length u = SKIPLIST_MAXLEVEL"
    and pred: "\<forall>j<level_sl sl. \<exists>a rk. u ! j = Some a \<and> is_pred sl j A a rk"
    and x: "u ! 0 = Some x"
    using lvl by auto
  define U where "U j = the (u ! j)" for j
  have UR: "\<forall>j<level_sl sl. u ! j = Some (U j) \<and> (\<exists>rk. is_pred sl j A (U j) rk)"
    using pred unfolding U_def by (metis option.sel)
  from lvl have "0 < level_sl sl" by simp
  with UR obtain rk where p0: "is_pred sl 0 A (U 0) rk" by blast
  have x0: "x = U 0" using x by (simp add: U_def)
  from pred_cell [OF sh _ p0] lvl
  have c: "U 0 < length (store sl)" "0 < ht sl (U 0)" "fw sl (U 0) 0 = find (tall sl 0) B" by simp_all
  have "find (tall sl 0) B = (case B of [] \<Rightarrow> None | b # _ \<Rightarrow> Some b)"
    using nodes by (cases B) (auto simp: tall_def)
  with c x0 have "x < length (store sl) \<and> 0 < ht sl x \<and>
      fw sl x 0 = (case B of [] \<Rightarrow> None | b # _ \<Rightarrow> Some b)" by simp
  with find len UR x0 show ?thesis
    by (intro exI [of _ x] exI [of _ u] exI [of _ U]) simp
qed

text \<open>\<open>delete\<close> when the node after the search position is not the one asked for.\<close>

lemma delete_sl_absent:
  assumes sh: "sl_shape sl (A @ B)"
    and pass: "\<forall>a\<in>set A. key_before sc e (store sl ! a)"
    and fail: "\<forall>b\<in>set B. \<not> key_before sc e (store sl ! b)"
    and nomatch: "B = [] \<or> \<not> key_match sc e (store sl ! hd B)"
  shows "delete_sl sl sc e = Some (False, sl)"
proof -
  from delete_sl_search [OF sh pass fail]
  obtain x u where find: "forM (rev [0..<level_sl sl]) (delete_find sl sc e)
      (header sl, replicate SKIPLIST_MAXLEVEL None) = Some (x, u)"
    and x: "x < length (store sl)" "0 < ht sl x"
      "fw sl x 0 = (case B of [] \<Rightarrow> None | b # _ \<Rightarrow> Some b)"
    by blast
  have lx: "lev sl x 0 = Some (level (store sl ! x) ! 0)"
    using x by (simp add: lev_def node_def idx_def ht_def)
  show ?thesis
  proof (cases B)
    case Nil
    with x have "forward (level (store sl ! x) ! 0) = None" by (simp add: fw_def)
    then show ?thesis unfolding delete_sl_def by (simp add: find lx)
  next
    case (Cons b B')
    with x have f: "forward (level (store sl ! x) ! 0) = Some b" by (simp add: fw_def)
    from sh Cons have "b < length (store sl)" by (simp add: sl_shape_def)
    then have n: "node sl b = Some (store sl ! b)" by (simp add: node_def idx_def)
    from nomatch Cons have nm: "(f_eq (score (store sl ! b)) sc \<and> ele (store sl ! b) = e) = False"
      by (simp add: key_match_def)
    show ?thesis unfolding delete_sl_def by (simp add: find lx f n nm)
  qed
qed

lemma delete_sl_shape:
  assumes sh: "sl_shape sl (A @ y # B)"
    and pass: "\<forall>a\<in>set A. key_before sc e (store sl ! a)"
    and fail: "\<forall>b\<in>set (y # B). \<not> key_before sc e (store sl ! b)"
    and match: "key_match sc e (store sl ! y)"
  shows "\<exists>sl'. delete_sl sl sc e = Some (True, sl') \<and> sl_shape sl' (A @ B) \<and>
    length (store sl') = length (store sl) \<and> header sl' = header sl \<and>
    (\<forall>a. ht sl' a = ht sl a \<and> ele (store sl' ! a) = ele (store sl ! a) \<and>
        score (store sl' ! a) = score (store sl ! a))"
proof -
  let ?L = "level_sl sl"
  let ?h = "header sl"
  from sh have hv: "?h < length (store sl)" and hh: "ht sl ?h = SKIPLIST_MAXLEVEL"
    and hn: "?h \<notin> set (A @ y # B)" and dist: "distinct (A @ y # B)"
    and nodes: "\<forall>a\<in>set (A @ y # B). a < length (store sl) \<and> 1 \<le> ht sl a \<and> ht sl a \<le> ?L"
    and lvl: "1 \<le> ?L" "?L \<le> SKIPLIST_MAXLEVEL"
    and cells: "cells_from sl (A @ y # B) []"
    by (simp_all add: sl_shape_def)
  from nodes have yv: "y < length (store sl)" "1 \<le> ht sl y" by simp_all
  from nodes have nodesB: "\<forall>a\<in>set B. a < length (store sl)" by simp
  from delete_sl_search [OF sh pass fail]
  obtain x u U where find: "forM (rev [0..<?L]) (delete_find sl sc e)
      (?h, replicate SKIPLIST_MAXLEVEL None) = Some (x, u)"
    and len: "length u = SKIPLIST_MAXLEVEL"
    and UR: "\<forall>j<?L. u ! j = Some (U j) \<and> (\<exists>rk. is_pred sl j A (U j) rk)"
    and x: "x < length (store sl)" "0 < ht sl x" "fw sl x 0 = Some y"
    by auto
  define R where "R j = (SOME rk. is_pred sl j A (U j) rk)" for j
  have preds: "\<forall>j<?L. is_pred sl j A (U j) (R j)"
    using UR unfolding R_def by (metis someI_ex)
  have Uc: "U j < length (store sl) \<and> j < ht sl (U j) \<and> fw sl (U j) j = find (tall sl j) (y # B)"
    if "j < ?L" for j
    using pred_cell [OF sh that, of "U j" "R j"] preds that by simp
  have Uy: "U j \<noteq> y" if "j < ?L" for j
    using is_pred_mem [of sl j A "U j" "R j"] preds that hn dist by auto
  \<comment> \<open>unlinking\<close>
  have "\<exists>s'. forM [0..<?L] (deleteNode_unlink y u) sl = Some s' \<and> same_frame sl s' \<and> tail s' = tail sl \<and>
    (\<forall>b j. fw s' b j = (if j \<in> set [0..<?L] \<and> u ! j = Some b \<and> fw sl b j = Some y then fw sl y j
        else fw sl b j)) \<and>
    (\<forall>b j. sp s' b j = (if j \<in> set [0..<?L] \<and> u ! j = Some b then
        (if fw sl b j = Some y then sp sl b j + (sp sl y j - 1) else sp sl b j - 1) else sp sl b j))"
  proof (rule deleteNode_unlink_loop)
    show "\<forall>j\<in>set [0..<?L]. \<exists>a. u ! j = Some a \<and> a < length (store sl) \<and> j < ht sl a \<and> a \<noteq> y \<and>
      j < length u \<and> (fw sl a j = Some y \<longrightarrow> j < ht sl y)"
    proof
      fix j assume "j \<in> set [0..<?L]"
      then have j: "j < ?L" by simp
      have "fw sl (U j) j = Some y \<longrightarrow> j < ht sl y"
      proof
        assume "fw sl (U j) j = Some y"
        with Uc [OF j] have "find (tall sl j) (y # B) = Some y" by simp
        then have "tall sl j y" by (metis find_Some_iff)
        then show "j < ht sl y" by (simp add: tall_def)
      qed
      with Uc [OF j] Uy [OF j] UR j len lvl
      show "\<exists>a. u ! j = Some a \<and> a < length (store sl) \<and> j < ht sl a \<and> a \<noteq> y \<and>
        j < length u \<and> (fw sl a j = Some y \<longrightarrow> j < ht sl y)"
        by (intro exI [of _ "U j"]) simp
    qed
    show "y < length (store sl)" by (rule yv)
    show "distinct [0..<?L]" by simp
  qed
  then obtain s1 where unlink: "forM [0..<?L] (deleteNode_unlink y u) sl = Some s1"
    and f1: "same_frame sl s1"
    and fw1: "\<forall>b j. fw s1 b j = (if j < ?L \<and> u ! j = Some b \<and> fw sl b j = Some y then fw sl y j
        else fw sl b j)"
    and sp1: "\<forall>b j. sp s1 b j = (if j < ?L \<and> u ! j = Some b then
        (if fw sl b j = Some y then sp sl b j + (sp sl y j - 1) else sp sl b j - 1) else sp sl b j)"
    by auto
  have uU: "(u ! j = Some b) = (b = U j)" if "j < ?L" for j b
    using UR that by auto
  have fw1': "fw s1 b j = (if j < ?L \<and> b = U j \<and> fw sl b j = Some y then fw sl y j else fw sl b j)"
    for b j
  proof (cases "j < ?L")
    case True
    from fw1 have "fw s1 b j = (if j < ?L \<and> u ! j = Some b \<and> fw sl b j = Some y then fw sl y j
        else fw sl b j)" by blast
    with True uU [OF True, of b] show ?thesis by simp
  next
    case False
    with fw1 show ?thesis by simp
  qed
  have sp1': "sp s1 b j = (if j < ?L \<and> b = U j then
        (if fw sl b j = Some y then sp sl b j + (sp sl y j - 1) else sp sl b j - 1) else sp sl b j)"
    for b j
  proof (cases "j < ?L")
    case True
    from sp1 have "sp s1 b j = (if j < ?L \<and> u ! j = Some b then
        (if fw sl b j = Some y then sp sl b j + (sp sl y j - 1) else sp sl b j - 1) else sp sl b j)"
      by blast
    with True uU [OF True, of b] show ?thesis by simp
  next
    case False
    with sp1 show ?thesis by simp
  qed
  \<comment> \<open>the backward pointer\<close>
  have y0: "fw s1 y 0 = find (tall sl 0) B"
  proof -
    from cells_from_split [OF cells, of 0] yv have "cell_ok sl y 0 B" by simp
    moreover have "fw s1 y 0 = fw sl y 0" using fw1' [of y 0] Uy [of 0] by auto
    ultimately show ?thesis by (simp add: cell_ok_def)
  qed
  define s2 where "s2 = (case fw s1 y 0 of None \<Rightarrow> s1\<lparr>tail := backward (store s1 ! y)\<rparr>
    | Some z \<Rightarrow> put_bw s1 z (backward (store s1 ! y)))"
  have bw: "(case forward (level (store s1 ! y) ! 0) of
      None \<Rightarrow> Some (s1\<lparr>tail := backward (store s1 ! y)\<rparr>)
    | Some z \<Rightarrow> set_backward s1 z (backward (store s1 ! y))) = Some s2"
  proof (cases "fw s1 y 0")
    case None
    then show ?thesis by (simp add: s2_def fw_def)
  next
    case (Some z)
    with y0 have "z \<in> set B" by (metis find_Some_iff nth_mem)
    with nodesB f1 have "z < length (store s1)" by (simp add: same_frame_def)
    with Some show ?thesis by (simp add: s2_def fw_def [symmetric])
  qed
  have f2: "same_frame s1 s2" "fw s2 = fw s1" "sp s2 = sp s1"
    by (simp_all add: s2_def fun_eq_iff split: option.splits)
  have fr: "same_frame sl s2" using f1 f2(1) by (rule same_frame_trans)
  \<comment> \<open>the level\<close>
  have "\<exists>k. deleteNode_shrink s2 (level_sl s2) = Some k"
    by (rule deleteNode_shrink_total) (use fr hv hh lvl in \<open>simp_all add: same_frame_def\<close>)
  then obtain k where shrink: "deleteNode_shrink s2 (level_sl s2) = Some k" ..
  note ks = deleteNode_shrink_spec [OF shrink]
  define sl' where "sl' = s2\<lparr>level_sl := k, length_sl := length_sl s2 - 1\<rparr>"
  have ly: "lev s1 y 0 = Some (level (store s1 ! y) ! 0)"
    using yv f1 by (simp add: lev_def node_def idx_def same_frame_def ht_def [symmetric])
  have ny: "node s1 y = Some (store s1 ! y)"
    using yv f1 by (simp add: node_def idx_def same_frame_def)
  have dn: "deleteNode sl y u = Some sl'"
    unfolding deleteNode_def by (simp add: unlink ly ny bw shrink sl'_def)
  have lx: "lev sl x 0 = Some (level (store sl ! x) ! 0)"
    using x by (simp add: lev_def node_def idx_def ht_def)
  have fx: "forward (level (store sl ! x) ! 0) = Some y" using x by (simp add: fw_def)
  have nn: "node sl y = Some (store sl ! y)" using yv by (simp add: node_def idx_def)
  have mt: "(f_eq (score (store sl ! y)) sc \<and> ele (store sl ! y) = e) = True"
    using match by (simp add: key_match_def)
  have run: "delete_sl sl sc e = Some (True, sl')"
    unfolding delete_sl_def by (simp add: find lx fx nn mt dn)
  have shape: "sl_shape sl' (A @ B)"
  proof (rule delete_shape [OF sh preds])
    show "header sl' = ?h" "length (store sl') = length (store sl)" "\<forall>a. ht sl' a = ht sl a"
      "length_sl sl' = length_sl sl - 1"
      using fr by (simp_all add: sl'_def same_frame_def)
    show "level_sl sl' \<le> ?L" "1 \<le> level_sl sl'"
      using ks fr lvl by (simp_all add: sl'_def same_frame_def)
    show "\<forall>j. level_sl sl' \<le> j \<and> j < ?L \<longrightarrow> fw sl' ?h j = None"
      using ks fr by (simp add: sl'_def same_frame_def)
    show "\<forall>a j. fw sl' a j =
      (if j < ?L \<and> a = U j \<and> fw sl a j = Some y then fw sl y j else fw sl a j)"
      using fw1' f2 by (simp add: sl'_def)
    show "\<forall>a j. sp sl' a j =
      (if j < ?L \<and> a = U j then
         (if fw sl a j = Some y then sp sl a j + (sp sl y j - 1) else sp sl a j - 1)
       else sp sl a j)"
      using sp1' f2 by (simp add: sl'_def)
  qed
  have "length (store sl') = length (store sl)" "header sl' = ?h"
    "\<forall>a. ht sl' a = ht sl a \<and> ele (store sl' ! a) = ele (store sl ! a) \<and>
        score (store sl' ! a) = score (store sl ! a)"
    using fr by (simp_all add: sl'_def same_frame_def)
  with run shape show ?thesis by (intro exI [of _ sl']) simp
qed

end
